theory Spec2Isabelle
  imports Main "HOL-Library.Sublist"
begin

section \<open>JavaScript strings and values\<close>

text \<open>
  A JavaScript string is a sequence of code units. The model takes the code units below
  256 (ISO 8859-1), one \<^typ>\<open>char\<close> each; the built-in string methods that
  \<^verbatim>\<open>app.js\<close> calls are written out for this range.
\<close>

definition dquote :: char where
  "dquote = CHR 0x22"

definition comma :: char where
  "comma = CHR 0x2C"

definition newline :: char where
  "newline = CHR 0x0A"

text \<open>
  \<^verbatim>\<open>String.prototype.trim\<close> removes WhiteSpace and LineTerminator code points at
  both ends. Below 256 these are TAB, LF, VT, FF, CR, SP and NBSP.
\<close>

definition isWhiteSpace :: "char \<Rightarrow> bool" where
  "isWhiteSpace c \<longleftrightarrow>
     c = CHR 0x09 \<or> c = CHR 0x0A \<or> c = CHR 0x0B \<or> c = CHR 0x0C \<or> c = CHR 0x0D \<or>
     c = CHR 0x20 \<or> c = CHR 0xA0"

definition trimStart :: "string \<Rightarrow> string" where
  "trimStart s = dropWhile isWhiteSpace s"

definition trimEnd :: "string \<Rightarrow> string" where
  "trimEnd s = rev (dropWhile isWhiteSpace (rev s))"

definition trim :: "string \<Rightarrow> string" where
  "trim s = trimEnd (trimStart s)"

text \<open>
  \<^verbatim>\<open>String.prototype.toLowerCase\<close>: below 256 the letters with a lower-case
  partner are A..Z and U+00C0..U+00DE without U+00D7; the partner is 32 further.
\<close>

definition lowerChar :: "char \<Rightarrow> char" where
  "lowerChar c =
     (let n = (of_char c :: nat) in
      if (65 \<le> n \<and> n \<le> 90) \<or> (192 \<le> n \<and> n \<le> 222 \<and> n \<noteq> 215)
      then char_of (n + 32) else c)"

definition toLowerCase :: "string \<Rightarrow> string" where
  "toLowerCase s = map lowerChar s"

text \<open>
  \<^verbatim>\<open>String.prototype.includes\<close>: does the needle occur at some position of the
  string.
\<close>

fun startsWith :: "string \<Rightarrow> string \<Rightarrow> bool" where
  "startsWith s [] = True"
| "startsWith [] (q # qs) = False"
| "startsWith (c # cs) (q # qs) = (c = q \<and> startsWith cs qs)"

fun includes_str :: "string \<Rightarrow> string \<Rightarrow> bool" where
  "includes_str [] q = (q = [])"
| "includes_str (c # cs) q = (startsWith (c # cs) q \<or> includes_str cs q)"

text \<open>
  \<^verbatim>\<open>String.prototype.split\<close> with a separator that matches exactly one code unit:
  the scan keeps the piece read so far and closes it at every match; the piece after the
  last match is always pushed, so the result is never empty. The matcher sees the code
  unit and the rest of the string after it (the regular expression of \<^verbatim>\<open>parseCSV\<close>
  looks ahead to the end of the line).
\<close>

fun split_when :: "(char \<Rightarrow> string \<Rightarrow> bool) \<Rightarrow> string \<Rightarrow> string \<Rightarrow> string list" where
  "split_when d cur [] = [rev cur]"
| "split_when d cur (c # cs) =
     (if d c cs then rev cur # split_when d [] cs else split_when d (c # cur) cs)"

text \<open>\<^verbatim>\<open>.split("\n")\<close>\<close>

definition splitLines :: "string \<Rightarrow> string list" where
  "splitLines s = split_when (\<lambda>c rest. c = newline) [] s"

text \<open>
  The lookahead \<^verbatim>\<open>(?=(?:(?:[^\"]*\"){2})*[^\"]*$)\<close>: the rest of the line is a
  sequence of blocks holding two double quotes each, then a tail without double quote.
  Such a decomposition exists exactly when the rest holds an even number of double
  quotes (lemma \<open>lookahead_blocks\<close> below).
\<close>

definition lookahead :: "string \<Rightarrow> bool" where
  "lookahead rest \<longleftrightarrow> even (length (filter (\<lambda>c. c = dquote) rest))"

text \<open>\<^verbatim>\<open>.split(/,(?=(?:(?:[^\"]*\"){2})*[^\"]*$)/)\<close>\<close>

definition splitCells :: "string \<Rightarrow> string list" where
  "splitCells r = split_when (\<lambda>c rest. c = comma \<and> lookahead rest) [] r"

text \<open>
  The delimiter rule in the words of the specification: a comma is a delimiter only when
  it is not enclosed by an odd number of preceding double quotes within the line. The
  flag \<open>inq\<close> holds whether the number of double quotes read so far is odd; the rule
  starts from \<open>False\<close>.
\<close>

fun spec_split :: "bool \<Rightarrow> string \<Rightarrow> string \<Rightarrow> string list" where
  "spec_split inq cur [] = [rev cur]"
| "spec_split inq cur (c # cs) =
     (if c = comma \<and> \<not> inq then rev cur # spec_split inq [] cs
      else spec_split (if c = dquote then \<not> inq else inq) (c # cur) cs)"

text \<open>
  \<^verbatim>\<open>.replace(/^\"|\"$/g, "")\<close>: a double quote at index 0 is removed; the scan goes
  on behind it, where only the second alternative can match, at a double quote that is
  the last code unit.
\<close>

definition stripQuotes :: "string \<Rightarrow> string" where
  "stripQuotes v =
     (let a = (case v of [] \<Rightarrow> [] | c # cs \<Rightarrow> if c = dquote then cs else v) in
      if a \<noteq> [] \<and> last a = dquote then butlast a else a)"

definition cleanCell :: "string \<Rightarrow> string" where
  "cleanCell v = trim (stripQuotes v)"

text \<open>
  Values that \<^verbatim>\<open>parseCSV\<close> handles: strings, and \<^verbatim>\<open>undefined\<close> from an index
  out of range or a property that is not there.
\<close>

datatype jsval = Undefined | Str string

fun truthy :: "jsval \<Rightarrow> bool" where
  "truthy Undefined = False"
| "truthy (Str s) = (s \<noteq> [])"

text \<open>\<^verbatim>\<open>a || b\<close>\<close>

definition or_else :: "jsval \<Rightarrow> jsval \<Rightarrow> jsval" where
  "or_else a b = (if truthy a then a else b)"

text \<open>\<^verbatim>\<open>r[i]\<close> on an array of strings\<close>

definition index_at :: "string list \<Rightarrow> nat \<Rightarrow> jsval" where
  "index_at r i = (if i < length r then Str (r ! i) else Undefined)"

text \<open>The object \<^verbatim>\<open>o\<close>: own properties, keyed by header.\<close>

type_synonym jsobj = "string \<rightharpoonup> jsval"

definition getprop :: "jsobj \<Rightarrow> string \<Rightarrow> jsval" where
  "getprop o' k = (case o' k of None \<Rightarrow> Undefined | Some v \<Rightarrow> v)"

datatype error = TypeError

section \<open>parseCSV\<close>

record row =
  categoria :: jsval
  fecha :: jsval
  loteria :: jsval
  horario :: jsval
  triple :: jsval
  terminal_a_b :: jsval
  terminal_c :: jsval
  numero :: jsval
  signo :: jsval
  cacho :: jsval
  animal :: jsval

text \<open>\<^verbatim>\<open>headers.forEach((h, i) => (o[h] = r[i] || ""))\<close>\<close>

definition assign :: "string list \<Rightarrow> nat \<times> string \<Rightarrow> jsobj \<Rightarrow> jsobj" where
  "assign r ih o' = o'(snd ih \<mapsto> or_else (index_at r (fst ih)) (Str []))"

definition mkObj :: "string list \<Rightarrow> string list \<Rightarrow> jsobj" where
  "mkObj headers r = fold (assign r) (enumerate 0 headers) Map.empty"

definition mkRow :: "string list \<Rightarrow> string list \<Rightarrow> row" where
  "mkRow headers r =
     (let o' = mkObj headers r in
      \<lparr> categoria = or_else (getprop o' ''categoria'') (Str ''loteria''),
        fecha = or_else (getprop o' ''fecha'') (Str []),
        loteria = or_else (getprop o' ''loteria'') (Str []),
        horario = or_else (getprop o' ''horario'') (Str []),
        triple = or_else (getprop o' ''triple'') (Str []),
        terminal_a_b = or_else (getprop o' ''terminal_a_b'') (Str []),
        terminal_c = or_else (getprop o' ''terminal_c'') (Str []),
        numero = or_else (getprop o' ''numero'') (Str []),
        signo = or_else (getprop o' ''signo'') (Str []),
        cacho = or_else (getprop o' ''cacho'') (Str []),
        animal = or_else (getprop o' ''animal'') (Str []) \<rparr>)"

text \<open>
  The array \<^verbatim>\<open>rows\<close> of cell arrays, one per line of the trimmed text.
\<close>

definition cellRows :: "string \<Rightarrow> string list list" where
  "cellRows text = map (\<lambda>r. map cleanCell (splitCells r)) (splitLines (trim text))"

text \<open>
  \<^verbatim>\<open>rows.shift()\<close> is \<^verbatim>\<open>undefined\<close> on an empty array, and \<^verbatim>\<open>.map\<close> on it
  throws a TypeError.
\<close>

definition parseCSV :: "string \<Rightarrow> error + row list" where
  "parseCSV text =
     (case cellRows text of
        [] \<Rightarrow> Inl TypeError
      | hd_row # rows \<Rightarrow>
          (let headers = map toLowerCase hd_row in Inr (map (mkRow headers) rows)))"

section \<open>Facet options\<close>

text \<open>
  \<^verbatim>\<open>new Set(arr)\<close> keeps the values in insertion order; adding a value that is
  already there changes nothing.
\<close>

fun set_add_all :: "jsval list \<Rightarrow> jsval list \<Rightarrow> jsval list" where
  "set_add_all seen [] = seen"
| "set_add_all seen (x # xs) = set_add_all (if x \<in> set seen then seen else seen @ [x]) xs"

text \<open>\<^verbatim>\<open>[...new Set(arr)].filter(Boolean)\<close>\<close>

definition uniq :: "jsval list \<Rightarrow> jsval list" where
  "uniq arr = filter truthy (set_add_all [] arr)"

text \<open>
  \<^verbatim>\<open>.sort((a, b) => a.localeCompare(b))\<close>. The collation of the browser's locale
  is not part of the repository: it is the parameter \<open>cmp\<close>, negative, zero or positive
  as \<^verbatim>\<open>localeCompare\<close> is. For a consistent comparator the language fixes the result
  of \<^verbatim>\<open>sort\<close>: the stable sorted arrangement, which insertion from the right builds.
\<close>

type_synonym collation = "string \<Rightarrow> string \<Rightarrow> int"

fun insert_cmp :: "collation \<Rightarrow> string \<Rightarrow> string list \<Rightarrow> string list" where
  "insert_cmp cmp x [] = [x]"
| "insert_cmp cmp x (y # ys) =
     (if cmp x y \<le> 0 then x # y # ys else y # insert_cmp cmp x ys)"

definition sort_cmp :: "collation \<Rightarrow> string list \<Rightarrow> string list" where
  "sort_cmp cmp xs = foldr (insert_cmp cmp) xs []"

text \<open>The values that are left after \<^verbatim>\<open>filter(Boolean)\<close> are strings.\<close>

fun strings_of :: "jsval list \<Rightarrow> string list" where
  "strings_of [] = []"
| "strings_of (Undefined # vs) = strings_of vs"
| "strings_of (Str s # vs) = s # strings_of vs"

text \<open>
  The constant \<^verbatim>\<open>lots\<close> of \<^verbatim>\<open>populateLotterySelect\<close>: the options of the
  select behind the fixed first option "Todas", whose value is the empty string.
\<close>

definition lots :: "collation \<Rightarrow> row list \<Rightarrow> string list" where
  "lots cmp rows = sort_cmp cmp (strings_of (uniq (map loteria rows)))"

section \<open>Page state\<close>

datatype status = Loading | Ready | LoadFailed

datatype fetch_outcome = NetworkFault string | Response bool string

text \<open>
  The globals \<^verbatim>\<open>RAW\<close>, \<^verbatim>\<open>FILTERED\<close>, \<^verbatim>\<open>CURRENT_CAT\<close> and what the functions
  write to the elements of \<^verbatim>\<open>els\<close>. An option of the select is held by its value
  (\<^verbatim>\<open>escapeHtml\<close> is undone when the markup is read). The card markup, the time
  of the last load and the optional heading are left out.
\<close>

record app =
  RAW :: "row list"
  FILTERED :: "row list"
  CURRENT_CAT :: string
  lotSel_value :: string
  lotSel_options :: "string list"
  q_value :: string
  q_placeholder :: string
  err_shown :: bool
  err_text :: string
  status_text :: status
  refresh_disabled :: bool
  count_pill :: nat
  total_rows :: nat
  grid_shown :: bool
  grid_cards :: "row list"

definition showError :: "string \<Rightarrow> app \<Rightarrow> app" where
  "showError msg s = s\<lparr>err_shown := True, err_text := msg\<rparr>"

definition hideError :: "app \<Rightarrow> app" where
  "hideError s = s\<lparr>err_shown := False, err_text := []\<rparr>"

text \<open>\<^verbatim>\<open>RAW.filter((r) => (r.categoria || "loteria") === CURRENT_CAT)\<close>\<close>

definition rowsForCategory :: "string \<Rightarrow> row list \<Rightarrow> row list" where
  "rowsForCategory cat raw =
     filter (\<lambda>r. or_else (categoria r) (Str ''loteria'') = Str cat) raw"

definition rowsForCurrentCategory :: "app \<Rightarrow> row list" where
  "rowsForCurrentCategory s = rowsForCategory (CURRENT_CAT s) (RAW s)"

text \<open>\<^verbatim>\<open>populateLotterySelect\<close> writes the markup of the select: "Todas", then \<^verbatim>\<open>lots\<close>.\<close>

definition populateLotterySelect :: "collation \<Rightarrow> row list \<Rightarrow> app \<Rightarrow> app" where
  "populateLotterySelect cmp rows s = s\<lparr>lotSel_options := lots cmp rows\<rparr>"

text \<open>\<^verbatim>\<open>Object.values(r)\<close>: the values in the order the literal creates the keys.\<close>

definition Object_values :: "row \<Rightarrow> jsval list" where
  "Object_values r =
     [categoria r, fecha r, loteria r, horario r, triple r, terminal_a_b r, terminal_c r,
      numero r, signo r, cacho r, animal r]"

text \<open>\<^verbatim>\<open>Object.entries(r)\<close>: each key with its value, in the same order.\<close>

definition Object_entries :: "row \<Rightarrow> (string \<times> jsval) list" where
  "Object_entries r =
     [(''categoria'', categoria r), (''fecha'', fecha r), (''loteria'', loteria r),
      (''horario'', horario r), (''triple'', triple r), (''terminal_a_b'', terminal_a_b r),
      (''terminal_c'', terminal_c r), (''numero'', numero r), (''signo'', signo r),
      (''cacho'', cacho r), (''animal'', animal r)]"

text \<open>\<^verbatim>\<open>Array.prototype.join\<close> writes \<^verbatim>\<open>undefined\<close> as the empty string.\<close>

fun toStr :: "jsval \<Rightarrow> string" where
  "toStr Undefined = []"
| "toStr (Str s) = s"

fun join :: "string \<Rightarrow> jsval list \<Rightarrow> string" where
  "join sep [] = []"
| "join sep [v] = toStr v"
| "join sep (v # w # vs) = toStr v @ sep @ join sep (w # vs)"

text \<open>The callback of \<^verbatim>\<open>base.filter\<close> in \<^verbatim>\<open>applyFilters\<close>.\<close>

definition passes :: "string \<Rightarrow> string \<Rightarrow> row \<Rightarrow> bool" where
  "passes lot q r =
     (if lot \<noteq> [] \<and> loteria r \<noteq> Str lot then False
      else if q = [] then True
      else includes_str (toLowerCase (join '' '' (Object_values r))) q)"

definition render :: "app \<Rightarrow> app" where
  "render s =
     (let s1 = s\<lparr>count_pill := length (FILTERED s), total_rows := length (RAW s)\<rparr> in
      if FILTERED s = [] then s1\<lparr>grid_shown := False\<rparr>
      else s1\<lparr>grid_shown := True, grid_cards := FILTERED s\<rparr>)"

definition applyFilters :: "app \<Rightarrow> app" where
  "applyFilters s =
     (let lot = lotSel_value s;
          q = toLowerCase (q_value s);
          base = rowsForCurrentCategory s
      in render (s\<lparr>FILTERED := filter (passes lot q) base\<rparr>))"

definition setCategory :: "collation \<Rightarrow> string \<Rightarrow> app \<Rightarrow> app" where
  "setCategory cmp cat s =
     (let s1 = s\<lparr>CURRENT_CAT := cat\<rparr>;
          s2 = s1\<lparr>lotSel_value := [], q_value := []\<rparr>;
          s3 = s2\<lparr>q_placeholder :=
                 (if cat = ''animalitos'' then ''Ej: 8:30 AM, 20, Cerdo, Guacharito...''
                  else ''Ej: 8:00 AM, 775, Aries, terminal...'')\<rparr>;
          base = rowsForCurrentCategory s3;
          s4 = populateLotterySelect cmp base s3
      in applyFilters s4)"

text \<open>
  The \<^verbatim>\<open>catch\<close> block of \<^verbatim>\<open>loadData\<close>.
\<close>

definition onLoadError :: "string \<Rightarrow> app \<Rightarrow> app" where
  "onLoadError msg s =
     render ((showError msg s)\<lparr>status_text := LoadFailed, RAW := [], FILTERED := []\<rparr>)"

text \<open>The message of the error that \<^verbatim>\<open>rows.shift().map\<close> would throw is the engine's.\<close>

fun message :: "error \<Rightarrow> string" where
  "message TypeError = ''TypeError''"

text \<open>
  One run of \<^verbatim>\<open>loadData\<close>, from the outcome of the two awaits: a promise of
  \<^verbatim>\<open>fetch\<close> or of \<^verbatim>\<open>res.text()\<close> that rejects with a message, or a response
  with its \<^verbatim>\<open>ok\<close> flag and its body.
\<close>

definition loadData :: "collation \<Rightarrow> fetch_outcome \<Rightarrow> app \<Rightarrow> app" where
  "loadData cmp outcome s =
     (let s0 = (hideError s)\<lparr>status_text := Loading, refresh_disabled := True\<rparr>;
          s1 = (case outcome of
                  NetworkFault msg \<Rightarrow> onLoadError msg s0
                | Response ok body \<Rightarrow>
                    if \<not> ok then onLoadError ''No se pudo cargar el CSV'' s0
                    else (case parseCSV body of
                            Inl e \<Rightarrow> onLoadError (message e) s0
                          | Inr rows \<Rightarrow>
                              setCategory cmp (CURRENT_CAT s0)
                                (s0\<lparr>RAW := rows, status_text := Ready\<rparr>)))
      in s1\<lparr>refresh_disabled := False\<rparr>)"

text \<open>The page as the script finds it: the globals as initialised, the controls empty.\<close>

definition initial :: app where
  "initial =
     \<lparr> RAW = [], FILTERED = [], CURRENT_CAT = ''loteria'', lotSel_value = [],
       lotSel_options = [], q_value = [], q_placeholder = [], err_shown = False,
       err_text = [], status_text = Loading, refresh_disabled = False, count_pill = 0,
       total_rows = 0, grid_shown = False, grid_cards = [] \<rparr>"

section \<open>Data for the examples\<close>

text \<open>
  A comparator to run \<^verbatim>\<open>sort\<close> with: the order of the code units, as
  \<^verbatim>\<open>localeCompare\<close> orders unaccented letters of one case.
\<close>

fun compareCodeUnits :: collation where
  "compareCodeUnits [] [] = 0"
| "compareCodeUnits [] (y # ys) = - 1"
| "compareCodeUnits (x # xs) [] = 1"
| "compareCodeUnits (x # xs) (y # ys) =
     (if (of_char x :: nat) < of_char y then - 1
      else if (of_char y :: nat) < of_char x then 1
      else compareCodeUnits xs ys)"

text \<open>The record of a row none of whose cells stands under a schema header.\<close>

definition blank_row :: row where
  "blank_row =
     \<lparr>categoria = Str ''loteria'', fecha = Str [], loteria = Str [], horario = Str [],
      triple = Str [], terminal_a_b = Str [], terminal_c = Str [], numero = Str [],
      signo = Str [], cacho = Str [], animal = Str []\<rparr>"

text \<open>The feed of the end-to-end scenario of the specification, and its records.\<close>

definition scenario_feed :: string where
  "scenario_feed =
     ''categoria,loteria,numero,animal\<newline>animalitos,Triple,20,Cerdo\<newline>loteria,Triple,775,''"

definition scenario_animalitos :: row where
  "scenario_animalitos =
     \<lparr>categoria = Str ''animalitos'', fecha = Str [], loteria = Str ''Triple'', horario = Str [],
      triple = Str [], terminal_a_b = Str [], terminal_c = Str [], numero = Str ''20'',
      signo = Str [], cacho = Str [], animal = Str ''Cerdo''\<rparr>"

definition scenario_loteria :: row where
  "scenario_loteria =
     \<lparr>categoria = Str ''loteria'', fecha = Str [], loteria = Str ''Triple'', horario = Str [],
      triple = Str [], terminal_a_b = Str [], terminal_c = Str [], numero = Str ''775'',
      signo = Str [], cacho = Str [], animal = Str []\<rparr>"

section \<open>Texts and cells as the specification speaks of them\<close>

text \<open>
  The text whose lines are the given strings: the lines with a newline between each two,
  none at the end.
\<close>

fun joinLines :: "string list \<Rightarrow> string" where
  "joinLines [] = []"
| "joinLines [l] = l"
| "joinLines (l # m # ls) = l @ newline # joinLines (m # ls)"

text \<open>
  A blank cell, read off the raw text: white space only, or one pair of double quotes
  around white space only.
\<close>

definition blankCell :: "string \<Rightarrow> bool" where
  "blankCell c \<longleftrightarrow>
     list_all isWhiteSpace c \<or>
     (2 \<le> length c \<and> hd c = dquote \<and> last c = dquote \<and> list_all isWhiteSpace (butlast (tl c)))"

text \<open>
  A raw cell without the white space and the double quotes around it; a header cell names
  a field when this, in lower case, is the field's name.
\<close>

definition isPadding :: "char \<Rightarrow> bool" where
  "isPadding c \<longleftrightarrow> isWhiteSpace c \<or> c = dquote"

definition bareCell :: "string \<Rightarrow> string" where
  "bareCell c = rev (dropWhile isPadding (rev (dropWhile isPadding c)))"

section \<open>Splitting a line into cells\<close>

lemma split_when_not_Nil: "split_when d cur s \<noteq> []"
  by (induction s arbitrary: cur) auto

lemma comma_not_dquote: "comma \<noteq> dquote"
  by (simp add: comma_def dquote_def)

lemma count_no_dquote: "dquote \<notin> set a \<Longrightarrow> filter (\<lambda>c. c = dquote) a = []"
  by (induction a) auto

lemma count_blocks:
  assumes "\<forall>(a, b)\<in>set bs. dquote \<notin> set a \<and> dquote \<notin> set b"
  shows "length (filter (\<lambda>c. c = dquote)
           (concat (map (\<lambda>(a, b). a @ [dquote] @ b @ [dquote]) bs))) = 2 * length bs"
  using assms by (induction bs) (auto simp: count_no_dquote)

lemma blocks_of_even:
  assumes "even (length (filter (\<lambda>c. c = dquote) s))"
  shows "\<exists>bs t. s = concat (map (\<lambda>(a, b). a @ [dquote] @ b @ [dquote]) bs) @ t \<and>
     dquote \<notin> set t \<and> (\<forall>(a, b)\<in>set bs. dquote \<notin> set a \<and> dquote \<notin> set b)"
  using assms
proof (induction "length s" arbitrary: s rule: less_induct)
  case less
  show ?case
  proof (cases "dquote \<in> set s")
    case False
    then have "s = concat (map (\<lambda>(a, b). a @ [dquote] @ b @ [dquote]) []) @ s \<and>
        dquote \<notin> set s \<and> (\<forall>(a, b)\<in>set []. dquote \<notin> set a \<and> dquote \<notin> set b)"
      by simp
    then show ?thesis by blast
  next
    case True
    then obtain a r where s: "s = a @ dquote # r" and a: "dquote \<notin> set a"
      by (auto dest: split_list_first)
    from less.prems s a have r: "odd (length (filter (\<lambda>c. c = dquote) r))"
      by (simp add: count_no_dquote)
    have "dquote \<in> set r"
    proof (rule ccontr)
      assume "dquote \<notin> set r"
      then have "filter (\<lambda>c. c = dquote) r = []" by (rule count_no_dquote)
      with r show False by simp
    qed
    then obtain b r' where r': "r = b @ dquote # r'" and b: "dquote \<notin> set b"
      by (auto dest: split_list_first)
    from r r' b have e: "even (length (filter (\<lambda>c. c = dquote) r'))"
      by (simp add: count_no_dquote)
    have "length r' < length s"
      using s r' by simp
    from less.hyps [OF this e] obtain bs t where
      bt: "r' = concat (map (\<lambda>(a, b). a @ [dquote] @ b @ [dquote]) bs) @ t"
        "dquote \<notin> set t" "\<forall>(a, b)\<in>set bs. dquote \<notin> set a \<and> dquote \<notin> set b"
      by blast
    from s r' bt(1) have "s = concat (map (\<lambda>(a, b). a @ [dquote] @ b @ [dquote]) ((a, b) # bs)) @ t"
      by simp
    moreover from a b bt(3) have "\<forall>(a, b)\<in>set ((a, b) # bs). dquote \<notin> set a \<and> dquote \<notin> set b"
      by simp
    ultimately show ?thesis
      using bt(2) by blast
  qed
qed

lemma lookahead_blocks:
  "lookahead s \<longleftrightarrow>
     (\<exists>bs t. s = concat (map (\<lambda>(a, b). a @ [dquote] @ b @ [dquote]) bs) @ t \<and>
        dquote \<notin> set t \<and> (\<forall>(a, b)\<in>set bs. dquote \<notin> set a \<and> dquote \<notin> set b))"
proof
  assume "lookahead s"
  then show "\<exists>bs t. s = concat (map (\<lambda>(a, b). a @ [dquote] @ b @ [dquote]) bs) @ t \<and>
        dquote \<notin> set t \<and> (\<forall>(a, b)\<in>set bs. dquote \<notin> set a \<and> dquote \<notin> set b)"
    unfolding lookahead_def by (rule blocks_of_even)
next
  assume "\<exists>bs t. s = concat (map (\<lambda>(a, b). a @ [dquote] @ b @ [dquote]) bs) @ t \<and>
        dquote \<notin> set t \<and> (\<forall>(a, b)\<in>set bs. dquote \<notin> set a \<and> dquote \<notin> set b)"
  then obtain bs t where
    s: "s = concat (map (\<lambda>(a, b). a @ [dquote] @ b @ [dquote]) bs) @ t" and
    t: "dquote \<notin> set t" and bs: "\<forall>(a, b)\<in>set bs. dquote \<notin> set a \<and> dquote \<notin> set b"
    by blast
  have "length (filter (\<lambda>c. c = dquote) s) = 2 * length bs"
    unfolding s using count_blocks [OF bs] count_no_dquote [OF t] by simp
  then show "lookahead s"
    by (simp add: lookahead_def)
qed

lemma split_when_quote_aware:
  assumes "inq \<longleftrightarrow> odd (length (filter (\<lambda>c. c = dquote) s))"
  shows "split_when (\<lambda>c rest. c = comma \<and> lookahead rest) cur s = spec_split inq cur s"
  using assms
proof (induction s arbitrary: inq cur)
  case Nil
  then show ?case by simp
next
  case (Cons c cs)
  show ?case
  proof (cases "c = dquote")
    case True
    with Cons.prems have "(\<not> inq) \<longleftrightarrow> odd (length (filter (\<lambda>c. c = dquote) cs))"
      by simp
    from Cons.IH [OF this] True comma_not_dquote show ?thesis
      by simp
  next
    case False
    with Cons.prems have i: "inq \<longleftrightarrow> odd (length (filter (\<lambda>c. c = dquote) cs))"
      by simp
    from Cons.IH [OF i] False i show ?thesis
      by (simp add: lookahead_def)
  qed
qed

text \<open>
  Claim C1, as amended. The split of a line is the quote-aware split of the specification
  started with the parity of all the double quotes of the line: a comma is a delimiter
  exactly when an even number of double quotes follows it. On a line with an even number
  of double quotes this is the rule of the claim. For the text of the claim the data line
  has the cells \<^verbatim>\<open>a,b\<close> and \<^verbatim>\<open>c\<close>, which the object \<^verbatim>\<open>o\<close> holds under
  \<^verbatim>\<open>h1\<close> and \<^verbatim>\<open>h2\<close>; the record returned has the schema fields only.
\<close>

theorem splitCells_rule:
  "splitCells line = spec_split (odd (length (filter (\<lambda>c. c = dquote) line))) [] line
   \<and> cellRows ''h1,h2\<newline>\"a,b\",c'' = [[''h1'', ''h2''], [''a,b'', ''c'']]
   \<and> mkObj [''h1'', ''h2''] [''a,b'', ''c''] = [''h1'' \<mapsto> Str ''a,b'', ''h2'' \<mapsto> Str ''c'']
   \<and> parseCSV ''h1,h2\<newline>\"a,b\",c'' =
       Inr [blank_row]"
proof (intro conjI)
  show "splitCells line = spec_split (odd (length (filter (\<lambda>c. c = dquote) line))) [] line"
    unfolding splitCells_def by (rule split_when_quote_aware) simp
  show "cellRows ''h1,h2\<newline>\"a,b\",c'' = [[''h1'', ''h2''], [''a,b'', ''c'']]"
    by code_simp
  show "mkObj [''h1'', ''h2''] [''a,b'', ''c''] = [''h1'' \<mapsto> Str ''a,b'', ''h2'' \<mapsto> Str ''c'']"
    by (simp add: mkObj_def assign_def index_at_def or_else_def)
  show "parseCSV ''h1,h2\<newline>\"a,b\",c'' =
       Inr [blank_row]"
    by code_simp
qed

theorem splitCells_rule_counterexample:
  "splitCells ''a,\"b'' = [''a,\"b''] \<and> spec_split False [] ''a,\"b'' = [''a'', ''\"b'']
   \<and> splitCells ''a,\"b'' \<noteq> spec_split False [] ''a,\"b''
   \<and> splitCells ''\"a,b'' = [''\"a'', ''b'']"
proof -
  have 1: "splitCells ''a,\"b'' = [''a,\"b'']"
    by code_simp
  have 2: "spec_split False [] ''a,\"b'' = [''a'', ''\"b'']"
    by code_simp
  have 3: "splitCells ''\"a,b'' = [''\"a'', ''b'']"
    by code_simp
  from 1 2 3 show ?thesis
    by simp
qed

lemma spec_split_inside:
  "dquote \<notin> set a \<Longrightarrow> spec_split True cur (a @ rest) = spec_split True (rev a @ cur) rest"
  by (induction a arbitrary: cur) auto

lemma splitCells_quoted:
  assumes a: "dquote \<notin> set a" and b: "dquote \<notin> set b"
  shows "splitCells (dquote # a @ [dquote, dquote] @ b @ [dquote] @ '',x'') =
     [dquote # a @ [dquote, dquote] @ b @ [dquote], ''x'']"
proof -
  let ?line = "dquote # a @ [dquote, dquote] @ b @ [dquote] @ '',x''"
  have x: "CHR ''x'' \<noteq> comma" "CHR ''x'' \<noteq> dquote" "CHR '','' = comma"
    by (simp_all add: comma_def dquote_def)
  have n: "length (filter (\<lambda>c. c = dquote) ?line) = 4"
    using a b by (simp add: count_no_dquote x comma_not_dquote)
  have "splitCells ?line = spec_split (odd (length (filter (\<lambda>c. c = dquote) ?line))) [] ?line"
    unfolding splitCells_def by (rule split_when_quote_aware) simp
  also have "\<dots> = spec_split False [] ?line"
    unfolding n by simp
  also have "\<dots> = spec_split True [dquote] (a @ dquote # dquote # b @ dquote # comma # ''x'')"
    using comma_not_dquote by (simp add: x)
  also have "\<dots> = spec_split True (rev a @ [dquote]) (dquote # dquote # b @ dquote # comma # ''x'')"
    by (rule spec_split_inside [OF a])
  also have "\<dots> = spec_split True (dquote # dquote # rev a @ [dquote]) (b @ dquote # comma # ''x'')"
    using comma_not_dquote by simp
  also have "\<dots> = spec_split True (rev b @ dquote # dquote # rev a @ [dquote]) (dquote # comma # ''x'')"
    by (rule spec_split_inside [OF b])
  also have "\<dots> = [dquote # a @ [dquote, dquote] @ b @ [dquote], ''x'']"
    using comma_not_dquote by (simp add: x)
  finally show ?thesis .
qed

lemma split_when_skip:
  "\<forall>c\<in>set a. \<forall>r. \<not> d c r \<Longrightarrow> split_when d cur (a @ s) = split_when d (rev a @ cur) s"
  by (induction a arbitrary: cur) auto

lemma split_when_acc:
  "split_when d cur s = (rev cur @ hd (split_when d [] s)) # tl (split_when d [] s)"
proof (induction s arbitrary: cur)
  case Nil
  then show ?case by simp
next
  case (Cons c cs)
  show ?case
  proof (cases "d c cs")
    case True
    then show ?thesis by simp
  next
    case False
    from Cons [of "c # cur"] Cons [of "[c]"] False show ?thesis
      by simp
  qed
qed

lemma split_when_suffix:
  assumes "\<forall>c\<in>set b. \<forall>r. \<not> d c r" and "\<forall>c r. d c (r @ b) = d c r"
  shows "split_when d cur (s @ b) =
     butlast (split_when d cur s) @ [last (split_when d cur s) @ b]"
proof (induction s arbitrary: cur)
  case Nil
  from split_when_skip [OF assms(1), of cur "[]"] show ?case by simp
next
  case (Cons c cs)
  from assms(2) have "d c (cs @ b) = d c cs" by blast
  with Cons show ?case
    by (simp add: split_when_not_Nil)
qed

lemma split_when_pad:
  assumes a: "\<forall>c\<in>set a. \<forall>r. \<not> d c r" and b: "\<forall>c\<in>set b. \<forall>r. \<not> d c r"
    and e: "\<forall>c r. d c (r @ b) = d c r"
  shows "length (split_when d [] (a @ s @ b)) = length (split_when d [] s)"
    and "j < length (split_when d [] s) \<Longrightarrow>
      split_when d [] (a @ s @ b) ! j =
        (if j = 0 then a else []) @ split_when d [] s ! j @
        (if Suc j = length (split_when d [] s) then b else [])"
proof -
  let ?X = "split_when d [] s"
  let ?Y = "butlast ?X @ [last ?X @ b]"
  have X: "?X \<noteq> []" by (rule split_when_not_Nil)
  have Y: "split_when d [] (s @ b) = ?Y"
    by (rule split_when_suffix [OF b e])
  have "split_when d [] (a @ s @ b) = split_when d (rev a) (s @ b)"
    using split_when_skip [OF a, of "[]" "s @ b"] by simp
  also have "\<dots> = (a @ hd ?Y) # tl ?Y"
    using split_when_acc [of d "rev a" "s @ b"] Y by simp
  finally have Z: "split_when d [] (a @ s @ b) = (a @ hd ?Y) # tl ?Y" .
  have lY: "length ?Y = length ?X"
    using X by (cases ?X rule: rev_cases) simp_all
  have Yne: "?Y \<noteq> []" by simp
  show "length (split_when d [] (a @ s @ b)) = length ?X"
    unfolding Z using lY Yne by (cases ?Y) simp_all
  assume j: "j < length ?X"
  have Yj: "?Y ! j = ?X ! j @ (if Suc j = length ?X then b else [])"
  proof (cases ?X rule: rev_cases)
    case Nil
    with X show ?thesis by simp
  next
    case (snoc xs x)
    with j show ?thesis
      by (auto simp: nth_append)
  qed
  show "split_when d [] (a @ s @ b) ! j =
        (if j = 0 then a else []) @ ?X ! j @ (if Suc j = length ?X then b else [])"
  proof (cases j)
    case 0
    have "hd ?Y = ?Y ! 0" using Yne by (simp add: hd_conv_nth)
    with 0 Z Yj show ?thesis by simp
  next
    case (Suc i)
    from j lY Suc have "tl ?Y ! i = ?Y ! Suc i"
      by (simp add: nth_tl)
    with Suc Z Yj show ?thesis by simp
  qed
qed

section \<open>Splitting a text into lines\<close>

lemma split_nl_skip:
  "newline \<notin> set l \<Longrightarrow>
     split_when (\<lambda>c rest. c = newline) cur (l @ rest) =
     split_when (\<lambda>c rest. c = newline) (rev l @ cur) rest"
  by (induction l arbitrary: cur) auto

lemma split_nl_joinLines:
  "\<forall>x\<in>set (l # ls). newline \<notin> set x \<Longrightarrow>
     split_when (\<lambda>c rest. c = newline) cur (joinLines (l # ls)) = (rev cur @ l) # ls"
proof (induction ls arbitrary: l cur)
  case Nil
  then have "newline \<notin> set l" by simp
  from split_nl_skip [OF this, of cur "[]"] show ?case by simp
next
  case (Cons m ms)
  then have l: "newline \<notin> set l" and r: "\<forall>x\<in>set (m # ms). newline \<notin> set x"
    by simp_all
  from Cons.IH [OF r, of "[]"] split_nl_skip [OF l, of cur "newline # joinLines (m # ms)"]
  show ?case by simp
qed

lemma splitLines_joinLines:
  assumes "\<forall>x\<in>set (l # ls). newline \<notin> set x"
  shows "splitLines (joinLines (l # ls)) = l # ls"
  using split_nl_joinLines [OF assms, of "[]"] by (simp add: splitLines_def)

lemma joinLines_first: "\<exists>y. joinLines (h # ds) = h @ y"
  by (cases ds) simp_all

lemma joinLines_last: "ls \<noteq> [] \<Longrightarrow> \<exists>x. joinLines ls = x @ last ls"
proof (induction ls rule: joinLines.induct)
  case 1
  then show ?case by simp
next
  case (2 l)
  then show ?case by simp
next
  case (3 l m ls)
  then obtain x where "joinLines (m # ls) = x @ last (m # ls)" by auto
  then have "joinLines (l # m # ls) = (l @ newline # x) @ last (l # m # ls)"
    by simp
  then show ?case by blast
qed

section \<open>Substrings\<close>

lemma startsWith_prefix: "startsWith s q \<longleftrightarrow> prefix q s"
  by (induction s q rule: startsWith.induct) auto

lemma includes_str_sublist: "includes_str s q \<longleftrightarrow> sublist q s"
  by (induction s) (simp_all add: startsWith_prefix sublist_Cons_right)

section \<open>Cleaning a cell\<close>

lemma dquote_not_space: "\<not> isWhiteSpace dquote"
  by (simp add: isWhiteSpace_def dquote_def)

lemma comma_not_space: "\<not> isWhiteSpace comma"
  by (simp add: isWhiteSpace_def comma_def)

lemma stripQuotes_wrapped: "stripQuotes (dquote # mid @ [dquote]) = mid"
  by (simp add: stripQuotes_def)

lemma stripQuotes_parts:
  "v = (if v \<noteq> [] \<and> hd v = dquote then [dquote] else []) @ stripQuotes v @
       (if 2 \<le> length v \<and> last v = dquote then [dquote] else [])"
proof (cases v)
  case Nil
  then show ?thesis by (simp add: stripQuotes_def)
next
  case (Cons c cs)
  show ?thesis
  proof (cases cs rule: rev_cases)
    case Nil
    with Cons show ?thesis by (simp add: stripQuotes_def)
  next
    case (snoc ys y)
    with Cons have v: "v = c # ys @ [y]" by simp
    show ?thesis
      unfolding v by (simp add: stripQuotes_def)
  qed
qed

lemma rev_split_while:
  "m = rev (dropWhile P (rev m)) @ rev (takeWhile P (rev m))"
  by (metis rev_append rev_rev_ident takeWhile_dropWhile_id)

lemma trim_parts:
  "\<exists>l r. s = l @ trim s @ r \<and> (\<forall>c\<in>set l. isWhiteSpace c) \<and> (\<forall>c\<in>set r. isWhiteSpace c)"
proof -
  let ?m = "dropWhile isWhiteSpace s"
  let ?l = "takeWhile isWhiteSpace s"
  let ?r = "rev (takeWhile isWhiteSpace (rev ?m))"
  have t: "trim s = rev (dropWhile isWhiteSpace (rev ?m))"
    by (simp add: trim_def trimStart_def trimEnd_def)
  have m: "?m = trim s @ ?r"
    unfolding t by (rule rev_split_while)
  have "s = ?l @ ?m" by simp
  with m have "s = ?l @ trim s @ ?r" by simp
  moreover have "\<forall>c\<in>set ?l. isWhiteSpace c"
    by (auto dest: set_takeWhileD)
  moreover have "\<forall>c\<in>set ?r. isWhiteSpace c"
    by (auto dest: set_takeWhileD)
  ultimately show ?thesis by blast
qed

lemma trim_ends:
  assumes "trim s \<noteq> []"
  shows "\<not> isWhiteSpace (hd (trim s)) \<and> \<not> isWhiteSpace (last (trim s))"
proof
  let ?m = "dropWhile isWhiteSpace s"
  let ?d = "dropWhile isWhiteSpace (rev ?m)"
  have t: "trim s = rev ?d"
    by (simp add: trim_def trimStart_def trimEnd_def)
  with assms have d: "?d \<noteq> []" by simp
  then have "\<not> isWhiteSpace (hd ?d)"
    by (rule hd_dropWhile)
  with t d show "\<not> isWhiteSpace (last (trim s))"
    by (simp add: last_rev)
  from d have "rev ?m \<noteq> []"
    by (metis dropWhile.simps(1))
  then have m: "?m \<noteq> []"
    by (metis rev.simps(1))
  then have h: "\<not> isWhiteSpace (hd ?m)"
    by (rule hd_dropWhile)
  have "?m = trim s @ rev (takeWhile isWhiteSpace (rev ?m))"
    unfolding t by (rule rev_split_while)
  then have "hd ?m = hd (trim s @ rev (takeWhile isWhiteSpace (rev ?m)))"
    by simp
  with assms have "hd ?m = hd (trim s)"
    by simp
  with h show "\<not> isWhiteSpace (hd (trim s))"
    by simp
qed

lemma trim_around_quotes:
  "trim (a @ dquote # dquote # b) = trimStart a @ dquote # dquote # trimEnd b"
proof -
  have 1: "dropWhile isWhiteSpace (a @ dquote # dquote # b) =
      dropWhile isWhiteSpace a @ dquote # dquote # b"
    by (rule dropWhile_append3) (rule dquote_not_space)
  have 2: "dropWhile isWhiteSpace (rev b @ dquote # dquote # rev (dropWhile isWhiteSpace a)) =
      dropWhile isWhiteSpace (rev b) @ dquote # dquote # rev (dropWhile isWhiteSpace a)"
    by (rule dropWhile_append3) (rule dquote_not_space)
  show ?thesis
    by (simp add: trim_def trimStart_def trimEnd_def 1 2)
qed

lemma trim_Nil: "trim [] = []"
  by (simp add: trim_def trimStart_def trimEnd_def)

lemma cleanCell_Nil: "cleanCell [] = []"
  by (simp add: cleanCell_def stripQuotes_def trim_Nil)

lemma trim_id:
  assumes "s \<noteq> []" and "\<not> isWhiteSpace (hd s)" and "\<not> isWhiteSpace (last s)"
  shows "trim s = s"
proof -
  from assms(1,2) have 1: "dropWhile isWhiteSpace s = s"
    by (cases s) simp_all
  from assms(1,3) have "rev s \<noteq> []" "\<not> isWhiteSpace (hd (rev s))"
    by (simp_all add: hd_rev)
  then have 2: "dropWhile isWhiteSpace (rev s) = rev s"
    by (cases "rev s") simp_all
  show ?thesis
    by (simp add: trim_def trimStart_def trimEnd_def 1 2)
qed

lemma ws_trim:
  assumes "\<forall>c\<in>set s. isWhiteSpace c"
  shows "trim s = []"
proof -
  from assms have d: "dropWhile isWhiteSpace s = []"
    by simp
  show ?thesis
    unfolding trim_def trimStart_def trimEnd_def d by simp
qed

lemma stripQuotes_ws:
  assumes "\<forall>c\<in>set s. isWhiteSpace c"
  shows "stripQuotes s = s"
proof (cases s)
  case Nil
  then show ?thesis by (simp add: stripQuotes_def)
next
  case (Cons c cs)
  with assms dquote_not_space have "c \<noteq> dquote" by auto
  moreover have "last s \<noteq> dquote"
    using assms dquote_not_space Cons last_in_set [of s] by auto
  ultimately show ?thesis
    using Cons by (simp add: stripQuotes_def)
qed

lemma cleanCell_quoted:
  "cleanCell (dquote # a @ [dquote, dquote] @ b @ [dquote]) =
     trimStart a @ [dquote, dquote] @ trimEnd b"
proof -
  have "stripQuotes (dquote # (a @ [dquote, dquote] @ b) @ [dquote]) = a @ [dquote, dquote] @ b"
    by (rule stripQuotes_wrapped)
  then show ?thesis
    by (simp add: cleanCell_def trim_around_quotes)
qed

lemma blank_clean:
  assumes raw: "raw = c' @ pb" and pb: "\<forall>c\<in>set pb. isWhiteSpace c" and blank: "blankCell raw"
  shows "cleanCell c' = []"
proof -
  from blank have "list_all isWhiteSpace raw \<or>
     (2 \<le> length raw \<and> hd raw = dquote \<and> last raw = dquote \<and>
      list_all isWhiteSpace (butlast (tl raw)))"
    by (simp add: blankCell_def)
  then show ?thesis
  proof
    assume "list_all isWhiteSpace raw"
    with raw have w: "\<forall>c\<in>set c'. isWhiteSpace c"
      by (simp add: list_all_iff)
    then show ?thesis
      by (simp add: cleanCell_def stripQuotes_ws ws_trim)
  next
    assume q: "2 \<le> length raw \<and> hd raw = dquote \<and> last raw = dquote \<and>
      list_all isWhiteSpace (butlast (tl raw))"
    have "pb = []"
    proof (rule ccontr)
      assume "pb \<noteq> []"
      with raw have "last raw = last pb" by simp
      with \<open>pb \<noteq> []\<close> have "last raw \<in> set pb" by simp
      with pb q dquote_not_space show False by auto
    qed
    with raw have c: "c' = raw" by simp
    from q obtain x xs where r1: "raw = x # xs"
      by (cases raw) auto
    with q have x: "x = dquote" and xs: "xs \<noteq> []"
      by auto
    from xs have "xs = butlast xs @ [last xs]" by simp
    moreover from r1 xs q have "last xs = dquote" by simp
    ultimately have "raw = dquote # butlast (tl raw) @ [dquote]"
      using r1 x by simp
    then have "stripQuotes raw = butlast (tl raw)"
      using stripQuotes_wrapped [of "butlast (tl raw)"] by simp
    moreover from q have "\<forall>c\<in>set (butlast (tl raw)). isWhiteSpace c"
      by (simp add: list_all_iff)
    ultimately show ?thesis
      using c by (simp add: cleanCell_def ws_trim)
  qed
qed

lemma bareCell_padded:
  assumes L: "\<forall>c\<in>set L. isPadding c" and R: "\<forall>c\<in>set R. isPadding c"
    and s: "s \<noteq> []" "\<not> isPadding (hd s)" "\<not> isPadding (last s)"
  shows "bareCell (L @ s @ R) = s"
proof -
  from s(1,2) have 1: "dropWhile isPadding (s @ R) = s @ R"
    by (cases s) simp_all
  have 2: "dropWhile isPadding (L @ s @ R) = s @ R"
    using dropWhile_append2 [of L isPadding "s @ R"] L 1 by simp
  from s(1,3) have "rev s \<noteq> []" "\<not> isPadding (hd (rev s))"
    by (simp_all add: hd_rev)
  then have 3: "dropWhile isPadding (rev s) = rev s"
    by (cases "rev s") simp_all
  have 4: "dropWhile isPadding (rev R @ rev s) = rev s"
    using dropWhile_append2 [of "rev R" isPadding "rev s"] R 3 by simp
  show ?thesis
    by (simp add: bareCell_def 2 4)
qed

lemma cleanCell_padding:
  "\<exists>L R. c = L @ cleanCell c @ R \<and> (\<forall>x\<in>set L. isPadding x) \<and> (\<forall>x\<in>set R. isPadding x)"
proof -
  from trim_parts [of "stripQuotes c"] obtain l r where
    t: "stripQuotes c = l @ cleanCell c @ r" and l: "\<forall>x\<in>set l. isWhiteSpace x"
    and r: "\<forall>x\<in>set r. isWhiteSpace x"
    by (auto simp: cleanCell_def)
  let ?q1 = "if c \<noteq> [] \<and> hd c = dquote then [dquote] else []"
  let ?q2 = "if 2 \<le> length c \<and> last c = dquote then [dquote] else []"
  from stripQuotes_parts [of c] t have "c = (?q1 @ l) @ cleanCell c @ (r @ ?q2)"
    by simp
  moreover have "\<forall>x\<in>set (?q1 @ l). isPadding x"
    using l by (auto simp: isPadding_def)
  moreover have "\<forall>x\<in>set (r @ ?q2). isPadding x"
    using r by (auto simp: isPadding_def)
  ultimately show ?thesis
    by blast
qed

lemma lowerChar_dquote: "lowerChar dquote = dquote"
  unfolding dquote_def by code_simp

lemma header_names:
  assumes raw: "raw = pa @ c' @ pb"
    and pa: "\<forall>x\<in>set pa. isWhiteSpace x" and pb: "\<forall>x\<in>set pb. isWhiteSpace x"
    and k: "toLowerCase (cleanCell c') = k" "k \<noteq> []" "hd k \<noteq> dquote" "last k \<noteq> dquote"
  shows "toLowerCase (bareCell raw) = k"
proof -
  let ?s = "cleanCell c'"
  from k(1,2) have ne: "?s \<noteq> []"
    by (auto simp: toLowerCase_def)
  from trim_ends [of "stripQuotes c'"] ne
  have w: "\<not> isWhiteSpace (hd ?s)" "\<not> isWhiteSpace (last ?s)"
    by (simp_all add: cleanCell_def)
  from k(1) ne have "hd k = lowerChar (hd ?s)" "last k = lowerChar (last ?s)"
    by (auto simp: toLowerCase_def hd_map last_map)
  with k(3,4) lowerChar_dquote have "hd ?s \<noteq> dquote" "last ?s \<noteq> dquote"
    by auto
  with w have np: "\<not> isPadding (hd ?s)" "\<not> isPadding (last ?s)"
    by (simp_all add: isPadding_def)
  from cleanCell_padding [of c'] obtain L R where
    c: "c' = L @ ?s @ R" and L: "\<forall>x\<in>set L. isPadding x" and R: "\<forall>x\<in>set R. isPadding x"
    by blast
  have "raw = (pa @ L) @ ?s @ (R @ pb)"
    using raw c by (metis append.assoc)
  moreover have "\<forall>x\<in>set (pa @ L). isPadding x"
    using pa L by (auto simp: isPadding_def)
  moreover have "\<forall>x\<in>set (R @ pb). isPadding x"
    using pb R by (auto simp: isPadding_def)
  ultimately have "bareCell raw = ?s"
    using bareCell_padded [of "pa @ L" "R @ pb" ?s] ne np by simp
  with k(1) show ?thesis
    by simp
qed

section \<open>White space around the text and around a line\<close>

lemma trim_pad:
  assumes pre: "\<forall>c\<in>set pre. isWhiteSpace c" and post: "\<forall>c\<in>set post. isWhiteSpace c"
    and body: "\<exists>c\<in>set body. \<not> isWhiteSpace c"
  shows "trim (pre @ body @ post) = trim body"
proof -
  from body obtain x where x: "x \<in> set body" "\<not> isWhiteSpace x" by blast
  have 1: "dropWhile isWhiteSpace (pre @ body @ post) = dropWhile isWhiteSpace (body @ post)"
    using pre by (simp add: dropWhile_append2)
  have 2: "dropWhile isWhiteSpace (body @ post) = dropWhile isWhiteSpace body @ post"
    using x by (rule dropWhile_append1)
  have 3: "dropWhile isWhiteSpace (rev post @ rev (dropWhile isWhiteSpace body)) =
      dropWhile isWhiteSpace (rev (dropWhile isWhiteSpace body))"
    by (rule dropWhile_append2) (use post in auto)
  show ?thesis
    by (simp add: trim_def trimStart_def trimEnd_def 1 2 3)
qed

lemma trim_parts_fix:
  "\<exists>l r. s = l @ trim s @ r \<and> (\<forall>c\<in>set l. isWhiteSpace c) \<and> (\<forall>c\<in>set r. isWhiteSpace c) \<and>
     prefix l s \<and> suffix r s"
proof -
  from trim_parts [of s] obtain l r where
    s: "s = l @ trim s @ r" and l: "\<forall>c\<in>set l. isWhiteSpace c" and r: "\<forall>c\<in>set r. isWhiteSpace c"
    by blast
  from s have "prefix l s"
    by (metis prefixI)
  moreover from s have "suffix r s"
    by (metis append.assoc suffixI)
  ultimately show ?thesis
    using s l r by blast
qed

lemma ws_prefix_first:
  assumes "prefix l (h @ y)" and "\<forall>c\<in>set l. isWhiteSpace c" and "\<exists>c\<in>set h. \<not> isWhiteSpace c"
  shows "prefix l h"
proof -
  from assms(1) have "prefix l h \<or> (\<exists>us. l = h @ us \<and> prefix us y)"
    by (simp add: prefix_append)
  then show ?thesis
  proof
    assume "\<exists>us. l = h @ us \<and> prefix us y"
    then have "set h \<subseteq> set l" by auto
    with assms(2,3) show ?thesis by blast
  qed
qed

lemma ws_suffix_last:
  assumes "suffix r (x @ z)" and "\<forall>c\<in>set r. isWhiteSpace c" and "\<exists>c\<in>set z. \<not> isWhiteSpace c"
  shows "suffix r z"
proof -
  from assms(1) have "suffix r z \<or> (\<exists>xs'. r = xs' @ z \<and> suffix xs' x)"
    by (simp add: suffix_append)
  then show ?thesis
  proof
    assume "\<exists>xs'. r = xs' @ z \<and> suffix xs' x"
    then have "set z \<subseteq> set r" by auto
    with assms(2,3) show ?thesis by blast
  qed
qed

lemma trimmed_lines:
  assumes lines: "\<forall>x\<in>set (h # ds). newline \<notin> set x"
    and hdr: "\<exists>c\<in>set h. \<not> isWhiteSpace c"
    and lst: "\<exists>c\<in>set (last (h # ds)). \<not> isWhiteSpace c"
    and pre: "\<forall>c\<in>set pre. isWhiteSpace c" and post: "\<forall>c\<in>set post. isWhiteSpace c"
  shows "length (splitLines (trim (pre @ joinLines (h # ds) @ post))) = Suc (length ds)"
    and "n \<le> length ds \<Longrightarrow>
      \<exists>a b. (h # ds) ! n = a @ splitLines (trim (pre @ joinLines (h # ds) @ post)) ! n @ b \<and>
        (\<forall>c\<in>set a. isWhiteSpace c) \<and> (\<forall>c\<in>set b. isWhiteSpace c) \<and> (0 < n \<longrightarrow> a = [])"
proof -
  let ?body = "joinLines (h # ds)"
  let ?d = "\<lambda>c (rest :: string). c = newline"
  obtain y where y: "?body = h @ y"
    using joinLines_first by blast
  obtain x where x: "?body = x @ last (h # ds)"
    using joinLines_last [of "h # ds"] by auto
  from hdr y have nb: "\<exists>c\<in>set ?body. \<not> isWhiteSpace c" by auto
  have T: "trim (pre @ ?body @ post) = trim ?body"
    by (rule trim_pad [OF pre post nb])
  from trim_parts_fix [of ?body] obtain l r where
    s: "?body = l @ trim ?body @ r" and l: "\<forall>c\<in>set l. isWhiteSpace c"
    and r: "\<forall>c\<in>set r. isWhiteSpace c" and pl: "prefix l ?body" and sr: "suffix r ?body"
    by blast
  from pl y have "prefix l (h @ y)" by simp
  from ws_prefix_first [OF this l hdr] have "set l \<subseteq> set h"
    by (auto simp: prefix_def)
  with lines have nl: "\<forall>c\<in>set l. \<forall>rest. \<not> ?d c rest" by auto
  from sr x have "suffix r (x @ last (h # ds))" by simp
  from ws_suffix_last [OF this r lst] have "set r \<subseteq> set (last (h # ds))"
    by (auto simp: suffix_def)
  moreover have "last (h # ds) \<in> set (h # ds)"
    by (rule last_in_set) simp
  ultimately have nr: "\<forall>c\<in>set r. \<forall>rest. \<not> ?d c rest"
    using lines by blast
  have e: "\<forall>c rest. ?d c (rest @ r) = ?d c rest" by simp
  have raw: "split_when ?d [] (l @ trim ?body @ r) = h # ds"
    using splitLines_joinLines [OF lines] s by (simp add: splitLines_def)
  from split_when_pad(1) [OF nl nr e, of "trim ?body"] raw
  have len: "length (split_when ?d [] (trim ?body)) = Suc (length ds)"
    by simp
  then show "length (splitLines (trim (pre @ ?body @ post))) = Suc (length ds)"
    by (simp add: T splitLines_def)
  assume n: "n \<le> length ds"
  with len have "n < length (split_when ?d [] (trim ?body))" by simp
  from split_when_pad(2) [OF nl nr e this] raw
  have "(h # ds) ! n = (if n = 0 then l else []) @ split_when ?d [] (trim ?body) ! n @
      (if Suc n = length (split_when ?d [] (trim ?body)) then r else [])"
    by simp
  then have "(h # ds) ! n = (if n = 0 then l else []) @
      splitLines (trim (pre @ ?body @ post)) ! n @
      (if Suc n = length (split_when ?d [] (trim ?body)) then r else [])"
    by (simp add: T splitLines_def)
  moreover have "\<forall>c\<in>set (if n = 0 then l else []). isWhiteSpace c"
    using l by simp
  moreover have "\<forall>c\<in>set (if Suc n = length (split_when ?d [] (trim ?body)) then r else []).
      isWhiteSpace c"
    using r by simp
  moreover have "0 < n \<longrightarrow> (if n = 0 then l else []) = []"
    by simp
  ultimately show "\<exists>a b. (h # ds) ! n = a @ splitLines (trim (pre @ ?body @ post)) ! n @ b \<and>
        (\<forall>c\<in>set a. isWhiteSpace c) \<and> (\<forall>c\<in>set b. isWhiteSpace c) \<and> (0 < n \<longrightarrow> a = [])"
    by blast
qed

lemma padded_cells:
  assumes a: "\<forall>c\<in>set a. isWhiteSpace c" and b: "\<forall>c\<in>set b. isWhiteSpace c"
  shows "length (splitCells (a @ s @ b)) = length (splitCells s)"
    and "j < length (splitCells s) \<Longrightarrow>
      splitCells (a @ s @ b) ! j =
        (if j = 0 then a else []) @ splitCells s ! j @
        (if Suc j = length (splitCells s) then b else [])"
proof -
  let ?d = "\<lambda>c rest. c = comma \<and> lookahead rest"
  from a comma_not_space have na: "\<forall>c\<in>set a. \<forall>r. \<not> ?d c r" by blast
  from b comma_not_space have nb: "\<forall>c\<in>set b. \<forall>r. \<not> ?d c r" by blast
  from b dquote_not_space have "dquote \<notin> set b" by blast
  then have "filter (\<lambda>c. c = dquote) b = []" by (rule count_no_dquote)
  then have e: "\<forall>c r. ?d c (r @ b) = ?d c r"
    by (simp add: lookahead_def)
  show "length (splitCells (a @ s @ b)) = length (splitCells s)"
    unfolding splitCells_def by (rule split_when_pad(1) [OF na nb e])
  assume "j < length (splitCells s)"
  then show "splitCells (a @ s @ b) ! j =
        (if j = 0 then a else []) @ splitCells s ! j @
        (if Suc j = length (splitCells s) then b else [])"
    unfolding splitCells_def by (rule split_when_pad(2) [OF na nb e])
qed

lemma padded_cells_of:
  assumes raw: "raw = a @ s @ b"
    and a: "\<forall>c\<in>set a. isWhiteSpace c" and b: "\<forall>c\<in>set b. isWhiteSpace c"
  shows "length (splitCells raw) = length (splitCells s)"
    and "j < length (splitCells s) \<Longrightarrow>
      \<exists>pa pb. splitCells raw ! j = pa @ splitCells s ! j @ pb \<and>
        (\<forall>c\<in>set pa. isWhiteSpace c) \<and> (\<forall>c\<in>set pb. isWhiteSpace c) \<and> (a = [] \<longrightarrow> pa = [])"
proof -
  show "length (splitCells raw) = length (splitCells s)"
    unfolding raw by (rule padded_cells(1) [OF a b])
  assume "j < length (splitCells s)"
  from padded_cells(2) [OF a b this]
  have "splitCells raw ! j = (if j = 0 then a else []) @ splitCells s ! j @
      (if Suc j = length (splitCells s) then b else [])"
    unfolding raw .
  moreover have "\<forall>c\<in>set (if j = 0 then a else []). isWhiteSpace c"
    using a by simp
  moreover have "\<forall>c\<in>set (if Suc j = length (splitCells s) then b else []). isWhiteSpace c"
    using b by simp
  moreover have "a = [] \<longrightarrow> (if j = 0 then a else []) = []"
    by simp
  ultimately show "\<exists>pa pb. splitCells raw ! j = pa @ splitCells s ! j @ pb \<and>
        (\<forall>c\<in>set pa. isWhiteSpace c) \<and> (\<forall>c\<in>set pb. isWhiteSpace c) \<and> (a = [] \<longrightarrow> pa = [])"
    by blast
qed

section \<open>The records of a text\<close>

lemma cellRows_not_Nil: "cellRows t \<noteq> []"
  by (simp add: cellRows_def splitLines_def split_when_not_Nil)

lemma length_cellRows: "length (cellRows t) = length (splitLines (trim t))"
  by (simp add: cellRows_def)

lemma parseCSV_Inr:
  "parseCSV t = Inr (map (mkRow (map toLowerCase (hd (cellRows t)))) (tl (cellRows t)))"
  using cellRows_not_Nil [of t]
  by (cases "cellRows t") (simp_all add: parseCSV_def)

lemma cellRows_empty:
  assumes "trim t = []"
  shows "cellRows t = [[[]]]"
  using assms by (simp add: cellRows_def splitLines_def splitCells_def cleanCell_Nil)

text \<open>
  Claim C9. \<^verbatim>\<open>parseCSV\<close> returns a list of records for every string: the array of
  lines is never empty, so \<^verbatim>\<open>rows.shift()\<close> is never \<^verbatim>\<open>undefined\<close> and nothing
  throws. For a text that is empty after trimming the result is the empty list.
\<close>

theorem parseCSV_total:
  "(\<exists>rs. parseCSV t = Inr rs) \<and> (trim t = [] \<longrightarrow> parseCSV t = Inr [])"
proof
  show "\<exists>rs. parseCSV t = Inr rs"
    by (simp add: parseCSV_Inr)
next
  show "trim t = [] \<longrightarrow> parseCSV t = Inr []"
    by (simp add: parseCSV_Inr cellRows_empty)
qed

theorem parseCSV_total_witness:
  "trim '' \<newline> '' = [] \<and> parseCSV '' \<newline> '' = Inr []"
proof -
  have t: "trim '' \<newline> '' = []"
    by code_simp
  with parseCSV_total [of "'' \<newline> ''"] show ?thesis
    by simp
qed

lemma or_else_Str: "\<exists>s. or_else a (Str d) = Str s"
  by (cases a) (simp_all add: or_else_def)

lemma fold_assign_Some:
  "fold (assign r) (enumerate n hs) m k = Some v \<Longrightarrow>
     m k = Some v \<or> (\<exists>j<length hs. hs ! j = k \<and> v = or_else (index_at r (n + j)) (Str []))"
proof (induction hs arbitrary: n m)
  case Nil
  then show ?case by simp
next
  case (Cons h hs)
  from Cons.prems have "fold (assign r) (enumerate (Suc n) hs) (assign r (n, h) m) k = Some v"
    by simp
  from Cons.IH [OF this] show ?case
  proof
    assume "assign r (n, h) m k = Some v"
    then show ?thesis
      by (auto simp: assign_def split: if_splits)
  next
    assume "\<exists>j<length hs. hs ! j = k \<and> v = or_else (index_at r (Suc n + j)) (Str [])"
    then obtain j where "j < length hs" "hs ! j = k" "v = or_else (index_at r (Suc n + j)) (Str [])"
      by blast
    then have "Suc j < length (h # hs) \<and> (h # hs) ! Suc j = k \<and>
        v = or_else (index_at r (n + Suc j)) (Str [])"
      by simp
    then show ?thesis by blast
  qed
qed

lemma mkObj_Some:
  assumes "mkObj hs r k = Some v"
  shows "\<exists>j<length hs. hs ! j = k \<and> v = or_else (index_at r j) (Str [])"
  using fold_assign_Some [of r 0 hs Map.empty k v] assms
  by (simp add: mkObj_def)

lemma mkObj_blank:
  assumes "\<forall>j<length hs. hs ! j = k \<longrightarrow> \<not> truthy (index_at r j)"
  shows "\<not> truthy (getprop (mkObj hs r) k)"
proof (cases "mkObj hs r k")
  case None
  then show ?thesis by (simp add: getprop_def)
next
  case (Some v)
  from mkObj_Some [OF this] obtain j where
    j: "j < length hs" "hs ! j = k" "v = or_else (index_at r j) (Str [])"
    by blast
  with assms have "\<not> truthy (index_at r j)" by blast
  with j(3) have "v = Str []" by (simp add: or_else_def)
  with Some show ?thesis by (simp add: getprop_def)
qed

lemma fold_assign_other:
  "k \<notin> set hs \<Longrightarrow> fold (assign r) (enumerate n hs) m k = m k"
  by (induction hs arbitrary: n m) (simp_all add: assign_def)

lemma fold_assign_at:
  "distinct hs \<Longrightarrow> j < length hs \<Longrightarrow>
     fold (assign r) (enumerate n hs) m (hs ! j) = Some (or_else (index_at r (n + j)) (Str []))"
proof (induction hs arbitrary: n m j)
  case Nil
  then show ?case by simp
next
  case (Cons h hs)
  show ?case
  proof (cases j)
    case 0
    with Cons.prems show ?thesis
      by (simp add: fold_assign_other) (simp add: assign_def)
  next
    case (Suc i)
    with Cons.prems have "distinct hs" "i < length hs" by simp_all
    from Cons.IH [OF this, of "Suc n" "assign r (n, h) m"] Suc show ?thesis
      by simp
  qed
qed

lemma mkObj_at:
  assumes "distinct hs" and "j < length hs"
  shows "getprop (mkObj hs r) (hs ! j) = Str (if j < length r then r ! j else [])"
  using fold_assign_at [OF assms, of r 0 Map.empty]
  by (simp add: mkObj_def getprop_def or_else_def index_at_def)

lemma Object_values_entries: "Object_values r = map snd (Object_entries r)"
  by (simp add: Object_values_def Object_entries_def)

lemma mkRow_entries:
  assumes "(k, v) \<in> set (Object_entries (mkRow hs r))"
  shows "v = or_else (getprop (mkObj hs r) k) (Str (if k = ''categoria'' then ''loteria'' else []))"
  using assms by (auto simp: Object_entries_def mkRow_def Let_def)

lemma mkRow_entry_Str:
  assumes "(k, v) \<in> set (Object_entries (mkRow hs r))"
  shows "\<exists>s. v = Str s"
  using mkRow_entries [OF assms] or_else_Str by simp

lemma mkRow_entry_default:
  assumes "(k, v) \<in> set (Object_entries (mkRow hs r))"
    and "\<forall>j<length hs. hs ! j = k \<longrightarrow> \<not> truthy (index_at r j)"
  shows "v = Str (if k = ''categoria'' then ''loteria'' else [])"
  using mkRow_entries [OF assms(1)] mkObj_blank [OF assms(2)]
  by (simp add: or_else_def)

lemma entries_key_plain:
  assumes "(k, v) \<in> set (Object_entries r)"
  shows "k \<noteq> [] \<and> hd k \<noteq> dquote \<and> last k \<noteq> dquote"
  using assms by (auto simp: Object_entries_def dquote_def)

lemma parseCSV_rows_by_lines:
  "\<exists>rs. parseCSV t = Inr rs \<and> Suc (length rs) = length (splitLines (trim t)) \<and>
     (\<forall>i<length rs. \<forall>(k, v)\<in>set (Object_entries (rs ! i)).
        (\<exists>s. v = Str s) \<and>
        ((\<forall>j<length (hd (cellRows t)).
            toLowerCase (hd (cellRows t) ! j) = k \<longrightarrow> \<not> truthy (index_at (tl (cellRows t) ! i) j))
         \<longrightarrow> v = Str (if k = ''categoria'' then ''loteria'' else [])))"
proof -
  let ?hs = "map toLowerCase (hd (cellRows t))"
  let ?rows = "tl (cellRows t)"
  let ?rs = "map (mkRow ?hs) ?rows"
  have p: "parseCSV t = Inr ?rs"
    by (rule parseCSV_Inr)
  have n: "Suc (length ?rs) = length (splitLines (trim t))"
    using cellRows_not_Nil [of t] length_cellRows [of t]
    by (cases "cellRows t") simp_all
  have f: "(\<exists>s. v = Str s) \<and>
        ((\<forall>j<length (hd (cellRows t)).
            toLowerCase (hd (cellRows t) ! j) = k \<longrightarrow> \<not> truthy (index_at (?rows ! i) j))
         \<longrightarrow> v = Str (if k = ''categoria'' then ''loteria'' else []))"
    if i: "i < length ?rs" and kv: "(k, v) \<in> set (Object_entries (?rs ! i))" for i k v
  proof -
    from i kv have e: "(k, v) \<in> set (Object_entries (mkRow ?hs (?rows ! i)))"
      by simp
    show ?thesis
    proof (intro conjI impI)
      show "\<exists>s. v = Str s"
        by (rule mkRow_entry_Str [OF e])
    next
      assume "\<forall>j<length (hd (cellRows t)).
            toLowerCase (hd (cellRows t) ! j) = k \<longrightarrow> \<not> truthy (index_at (?rows ! i) j)"
      then have "\<forall>j<length ?hs. ?hs ! j = k \<longrightarrow> \<not> truthy (index_at (?rows ! i) j)"
        by simp
      from mkRow_entry_default [OF e this]
      show "v = Str (if k = ''categoria'' then ''loteria'' else [])" .
    qed
  qed
  from p n f show ?thesis
    by blast
qed

text \<open>
  Claim C4. Take a text made of white space, a header line that holds more than white
  space, N data lines of which the last holds more than white space, and white space
  again. \<^verbatim>\<open>parseCSV\<close> returns exactly N records. Every field of every record is a
  string. A field holds its default, \<^verbatim>\<open>"loteria"\<close> for \<^verbatim>\<open>categoria\<close> and the empty
  string for the others, whenever under every header cell that names the field (the cell
  without the white space and double quotes around it is the name, in whatever case) the
  row has no cell or a blank cell. Lines, cells and blankness are read off the raw text,
  before any trimming or cleaning.
\<close>

theorem parseCSV_records:
  assumes lines: "\<forall>x\<in>set (h # ds). newline \<notin> set x"
    and hdr: "\<exists>c\<in>set h. \<not> isWhiteSpace c"
    and lst: "\<exists>c\<in>set (last (h # ds)). \<not> isWhiteSpace c"
    and pre: "\<forall>c\<in>set pre. isWhiteSpace c" and post: "\<forall>c\<in>set post. isWhiteSpace c"
  shows "\<exists>rs. parseCSV (pre @ joinLines (h # ds) @ post) = Inr rs \<and> length rs = length ds \<and>
     (\<forall>i<length ds. \<forall>(k, v)\<in>set (Object_entries (rs ! i)).
        (\<exists>s. v = Str s) \<and>
        ((\<forall>j<length (splitCells h). toLowerCase (bareCell (splitCells h ! j)) = k \<longrightarrow>
            j < length (splitCells (ds ! i)) \<longrightarrow> blankCell (splitCells (ds ! i) ! j))
         \<longrightarrow> v = Str (if k = ''categoria'' then ''loteria'' else [])))"
proof -
  let ?t = "pre @ joinLines (h # ds) @ post"
  let ?L = "splitLines (trim ?t)"
  let ?hs = "map toLowerCase (hd (cellRows ?t))"
  let ?rows = "tl (cellRows ?t)"
  let ?rs = "map (mkRow ?hs) ?rows"
  note tl = trimmed_lines [OF lines hdr lst pre post]
  have len: "length ?L = Suc (length ds)" by (rule tl(1))
  have p: "parseCSV ?t = Inr ?rs" by (rule parseCSV_Inr)
  have n: "length ?rs = length ds"
    using len by (simp add: cellRows_def)
  have hs: "?hs = map toLowerCase (map cleanCell (splitCells (?L ! 0)))"
    using len by (cases ?L) (simp_all add: cellRows_def)
  have rows: "?rows ! i = map cleanCell (splitCells (?L ! Suc i))" if "i < length ds" for i
    using len that by (cases ?L) (simp_all add: cellRows_def)
  have f: "(\<exists>s. v = Str s) \<and>
        ((\<forall>j<length (splitCells h). toLowerCase (bareCell (splitCells h ! j)) = k \<longrightarrow>
            j < length (splitCells (ds ! i)) \<longrightarrow> blankCell (splitCells (ds ! i) ! j))
         \<longrightarrow> v = Str (if k = ''categoria'' then ''loteria'' else []))"
    if i: "i < length ds" and kv: "(k, v) \<in> set (Object_entries (?rs ! i))" for i k v
  proof -
    from i n kv have e: "(k, v) \<in> set (Object_entries (mkRow ?hs (?rows ! i)))"
      by simp
    from tl(2) [of 0] obtain a0 b0 where
      h0: "h = a0 @ ?L ! 0 @ b0" and a0: "\<forall>c\<in>set a0. isWhiteSpace c"
      and b0: "\<forall>c\<in>set b0. isWhiteSpace c"
      by auto
    from i have "Suc i \<le> length ds" by simp
    from tl(2) [OF this] obtain a1 b1 where
      "(h # ds) ! Suc i = a1 @ ?L ! Suc i @ b1" and a1: "\<forall>c\<in>set a1. isWhiteSpace c"
      and b1: "\<forall>c\<in>set b1. isWhiteSpace c" and "0 < Suc i \<longrightarrow> a1 = []"
      by blast
    then have d1: "ds ! i = a1 @ ?L ! Suc i @ b1" and a1e: "a1 = []"
      by simp_all
    note ph = padded_cells_of [OF h0 a0 b0]
    note pd = padded_cells_of [OF d1 a1 b1]
    show ?thesis
    proof (intro conjI impI)
      show "\<exists>s. v = Str s"
        by (rule mkRow_entry_Str [OF e])
    next
      assume H: "\<forall>j<length (splitCells h). toLowerCase (bareCell (splitCells h ! j)) = k \<longrightarrow>
            j < length (splitCells (ds ! i)) \<longrightarrow> blankCell (splitCells (ds ! i) ! j)"
      have "\<not> truthy (index_at (?rows ! i) j)" if j: "j < length ?hs" and k: "?hs ! j = k" for j
      proof -
        from j hs have j0: "j < length (splitCells (?L ! 0))" by simp
        with ph(1) have jh: "j < length (splitCells h)" by simp
        from ph(2) [OF j0] obtain pa pb where
          "splitCells h ! j = pa @ splitCells (?L ! 0) ! j @ pb"
          and "\<forall>c\<in>set pa. isWhiteSpace c" and "\<forall>c\<in>set pb. isWhiteSpace c"
          by blast
        moreover from k hs j0 have "toLowerCase (cleanCell (splitCells (?L ! 0) ! j)) = k"
          by simp
        moreover from entries_key_plain [OF e]
        have "k \<noteq> []" "hd k \<noteq> dquote" "last k \<noteq> dquote"
          by simp_all
        ultimately have "toLowerCase (bareCell (splitCells h ! j)) = k"
          by (rule header_names)
        with H jh have B: "j < length (splitCells (ds ! i)) \<longrightarrow> blankCell (splitCells (ds ! i) ! j)"
          by blast
        show ?thesis
        proof (cases "j < length (splitCells (?L ! Suc i))")
          case False
          with rows [OF i] show ?thesis by (simp add: index_at_def)
        next
          case True
          with pd(1) B have bl: "blankCell (splitCells (ds ! i) ! j)" by simp
          from pd(2) [OF True] a1e obtain pb where
            "splitCells (ds ! i) ! j = splitCells (?L ! Suc i) ! j @ pb"
            and "\<forall>c\<in>set pb. isWhiteSpace c"
            by auto
          then have "cleanCell (splitCells (?L ! Suc i) ! j) = []"
            using bl by (rule blank_clean)
          with True rows [OF i] show ?thesis by (simp add: index_at_def)
        qed
      qed
      then have "\<forall>j<length ?hs. ?hs ! j = k \<longrightarrow> \<not> truthy (index_at (?rows ! i) j)"
        by blast
      from mkRow_entry_default [OF e this]
      show "v = Str (if k = ''categoria'' then ''loteria'' else [])" .
    qed
  qed
  from p n f show ?thesis
    by blast
qed

theorem parseCSV_records_witness:
  "''\<newline> Categoria ,\"Loteria\"\<newline>  ,Triple\<newline>\"\",x\<newline>animalitos \<newline>\<newline>'' =
     ''\<newline>'' @ joinLines ['' Categoria ,\"Loteria\"'', ''  ,Triple'', ''\"\",x'', ''animalitos ''] @
     ''\<newline>\<newline>''
   \<and> (\<exists>rs. parseCSV
          ''\<newline> Categoria ,\"Loteria\"\<newline>  ,Triple\<newline>\"\",x\<newline>animalitos \<newline>\<newline>'' = Inr rs \<and>
         length rs = 3 \<and>
         categoria (rs ! 0) = Str ''loteria'' \<and> loteria (rs ! 0) = Str ''Triple'' \<and>
         categoria (rs ! 1) = Str ''loteria'' \<and> loteria (rs ! 1) = Str ''x'' \<and>
         categoria (rs ! 2) = Str ''animalitos'' \<and> loteria (rs ! 2) = Str [])"
proof -
  let ?h = "'' Categoria ,\"Loteria\"''"
  let ?ds = "[''  ,Triple'', ''\"\",x'', ''animalitos '']"
  let ?t = "''\<newline> Categoria ,\"Loteria\"\<newline>  ,Triple\<newline>\"\",x\<newline>animalitos \<newline>\<newline>''"
  have t: "?t = ''\<newline>'' @ joinLines (?h # ?ds) @ ''\<newline>\<newline>''"
    by (simp add: newline_def)
  have lines: "\<forall>x\<in>set (?h # ?ds). newline \<notin> set x"
    by (simp add: newline_def)
  have hdr: "\<exists>c\<in>set ?h. \<not> isWhiteSpace c"
    by (simp add: isWhiteSpace_def)
  have lst: "\<exists>c\<in>set (last (?h # ?ds)). \<not> isWhiteSpace c"
    by (simp add: isWhiteSpace_def)
  have pre: "\<forall>c\<in>set ''\<newline>''. isWhiteSpace c" and post: "\<forall>c\<in>set ''\<newline>\<newline>''. isWhiteSpace c"
    by (simp_all add: isWhiteSpace_def)
  from parseCSV_records [OF lines hdr lst pre post] obtain rs where
    p: "parseCSV (''\<newline>'' @ joinLines (?h # ?ds) @ ''\<newline>\<newline>'') = Inr rs" and
    n: "length rs = length ?ds" and
    f: "\<forall>i<length ?ds. \<forall>(k, v)\<in>set (Object_entries (rs ! i)).
        (\<exists>s. v = Str s) \<and>
        ((\<forall>j<length (splitCells ?h). toLowerCase (bareCell (splitCells ?h ! j)) = k \<longrightarrow>
            j < length (splitCells (?ds ! i)) \<longrightarrow> blankCell (splitCells (?ds ! i) ! j))
         \<longrightarrow> v = Str (if k = ''categoria'' then ''loteria'' else []))"
    by blast
  have ch: "splitCells ?h = ['' Categoria '', ''\"Loteria\"'']"
    by code_simp
  have c0: "splitCells (?ds ! 0) = [''  '', ''Triple'']"
    and c1: "splitCells (?ds ! 1) = [''\"\"'', ''x'']"
    and c2: "splitCells (?ds ! 2) = [''animalitos '']"
    by code_simp+
  have b0: "blankCell ''  ''" and b1: "blankCell ''\"\"''"
    by code_simp+
  have s0: "toLowerCase (bareCell '' Categoria '') = ''categoria''"
    and s1: "toLowerCase (bareCell ''\"Loteria\"'') = ''loteria''"
    by code_simp+
  have H0: "\<forall>j<length (splitCells ?h). toLowerCase (bareCell (splitCells ?h ! j)) = ''categoria'' \<longrightarrow>
      j < length (splitCells (?ds ! 0)) \<longrightarrow> blankCell (splitCells (?ds ! 0) ! j)"
    unfolding ch c0 using b0 s0 s1 by (simp add: less_Suc_eq)
  have H1: "\<forall>j<length (splitCells ?h). toLowerCase (bareCell (splitCells ?h ! j)) = ''categoria'' \<longrightarrow>
      j < length (splitCells (?ds ! 1)) \<longrightarrow> blankCell (splitCells (?ds ! 1) ! j)"
    unfolding ch c1 using b1 s0 s1 by (simp add: less_Suc_eq)
  have H2: "\<forall>j<length (splitCells ?h). toLowerCase (bareCell (splitCells ?h ! j)) = ''loteria'' \<longrightarrow>
      j < length (splitCells (?ds ! 2)) \<longrightarrow> blankCell (splitCells (?ds ! 2) ! j)"
    unfolding ch c2 using s0 s1 by (simp add: less_Suc_eq)
  have e0: "(''categoria'', categoria (rs ! 0)) \<in> set (Object_entries (rs ! 0))"
    and e1: "(''categoria'', categoria (rs ! 1)) \<in> set (Object_entries (rs ! 1))"
    and e2: "(''loteria'', loteria (rs ! 2)) \<in> set (Object_entries (rs ! 2))"
    by (simp_all add: Object_entries_def)
  have l: "0 < length ?ds" "1 < length ?ds" "2 < length ?ds"
    by simp_all
  from bspec [OF f [THEN spec, THEN mp, OF l(1)] e0] H0
  have r0: "categoria (rs ! 0) = Str ''loteria''"
    by simp
  from bspec [OF f [THEN spec, THEN mp, OF l(2)] e1] H1
  have r1: "categoria (rs ! 1) = Str ''loteria''"
    by simp
  from bspec [OF f [THEN spec, THEN mp, OF l(3)] e2] H2
  have r2: "loteria (rs ! 2) = Str []"
    by simp
  have "parseCSV ?t =
      Inr [blank_row\<lparr>loteria := Str ''Triple''\<rparr>, blank_row\<lparr>loteria := Str ''x''\<rparr>,
           blank_row\<lparr>categoria := Str ''animalitos''\<rparr>]"
    by code_simp
  with p t have "rs = [blank_row\<lparr>loteria := Str ''Triple''\<rparr>, blank_row\<lparr>loteria := Str ''x''\<rparr>,
           blank_row\<lparr>categoria := Str ''animalitos''\<rparr>]"
    by simp
  then have o: "loteria (rs ! 0) = Str ''Triple''" "loteria (rs ! 1) = Str ''x''"
      "categoria (rs ! 2) = Str ''animalitos''"
    by simp_all
  from p t have "parseCSV ?t = Inr rs" by simp
  with t n r0 r1 r2 o show ?thesis
    by (intro conjI exI [of _ rs]) simp_all
qed

lemma parseCSV_quoted_cell:
  assumes a: "newline \<notin> set a \<and> dquote \<notin> set a" and b: "newline \<notin> set b \<and> dquote \<notin> set b"
  shows "parseCSV (''fecha,loteria'' @ [newline] @ dquote # a @ [dquote, dquote] @ b @ [dquote] @ '',x'') =
     Inr [blank_row\<lparr>fecha := Str (trimStart a @ [dquote, dquote] @ trimEnd b), loteria := Str ''x''\<rparr>]"
proof -
  let ?v = "dquote # a @ [dquote, dquote] @ b @ [dquote]"
  let ?l = "?v @ '',x''"
  let ?t = "''fecha,loteria'' @ [newline] @ ?l"
  have nl: "dquote \<noteq> newline" "CHR ''x'' \<noteq> newline" "CHR '','' \<noteq> newline"
    by (simp_all add: dquote_def newline_def)
  have "?t \<noteq> []" "\<not> isWhiteSpace (hd ?t)" "\<not> isWhiteSpace (last ?t)"
    by (simp_all add: isWhiteSpace_def)
  then have tr: "trim ?t = ?t"
    by (rule trim_id)
  have j: "?t = joinLines [''fecha,loteria'', ?l]"
    by simp
  have "\<forall>x\<in>set [''fecha,loteria'', ?l]. newline \<notin> set x"
    using a b nl by (simp add: newline_def)
  from splitLines_joinLines [OF this] have sl: "splitLines ?t = [''fecha,loteria'', ?l]"
    unfolding j .
  have h: "map cleanCell (splitCells ''fecha,loteria'') = [''fecha'', ''loteria'']"
    by code_simp
  have lc: "toLowerCase ''fecha'' = ''fecha''" "toLowerCase ''loteria'' = ''loteria''"
    by code_simp+
  have x: "cleanCell ''x'' = ''x''"
    by code_simp
  from a b have "splitCells ?l = [?v, ''x'']"
    using splitCells_quoted [of a b] by simp
  then have d: "map cleanCell (splitCells ?l) = [trimStart a @ [dquote, dquote] @ trimEnd b, ''x'']"
    using cleanCell_quoted [of a b] x by simp
  have cr: "cellRows ?t = [[''fecha'', ''loteria''], [trimStart a @ [dquote, dquote] @ trimEnd b, ''x'']]"
    unfolding cellRows_def tr sl using h d by simp
  have m: "mkRow [''fecha'', ''loteria''] [trimStart a @ [dquote, dquote] @ trimEnd b, ''x''] =
      blank_row\<lparr>fecha := Str (trimStart a @ [dquote, dquote] @ trimEnd b), loteria := Str ''x''\<rparr>"
    by (simp add: mkRow_def mkObj_def assign_def index_at_def or_else_def getprop_def blank_row_def)
  from cr m show ?thesis
    by (simp add: parseCSV_def lc)
qed

text \<open>
  Claim C5. The records of \<^verbatim>\<open>parseCSV\<close> are built from the cells of the comma split
  of each line of the trimmed text, every one of them passed through \<^verbatim>\<open>cleanCell\<close>.
  A cell loses a double quote at its start if there is one and a double quote at its end
  if there is one, nothing else; what is left loses the white space around it. Nothing is
  unescaped: a quoted cell with a doubled double quote inside reaches its field of the
  record with both double quotes in place.
\<close>

theorem cleanCell_strip_then_trim:
  "cellRows t = map (\<lambda>l. map cleanCell (splitCells l)) (splitLines (trim t))
   \<and> parseCSV t = Inr (map (mkRow (map toLowerCase (hd (cellRows t)))) (tl (cellRows t)))
   \<and> v = (if v \<noteq> [] \<and> hd v = dquote then [dquote] else []) @ stripQuotes v @
       (if 2 \<le> length v \<and> last v = dquote then [dquote] else [])
   \<and> (\<exists>l r. stripQuotes v = l @ cleanCell v @ r \<and>
          (\<forall>c\<in>set l. isWhiteSpace c) \<and> (\<forall>c\<in>set r. isWhiteSpace c))
   \<and> (cleanCell v \<noteq> [] \<longrightarrow>
          \<not> isWhiteSpace (hd (cleanCell v)) \<and> \<not> isWhiteSpace (last (cleanCell v)))
   \<and> cleanCell (dquote # a @ [dquote, dquote] @ b @ [dquote]) =
          trimStart a @ [dquote, dquote] @ trimEnd b
   \<and> (newline \<notin> set a \<and> dquote \<notin> set a \<and> newline \<notin> set b \<and> dquote \<notin> set b \<longrightarrow>
        parseCSV (''fecha,loteria'' @ [newline] @
                  dquote # a @ [dquote, dquote] @ b @ [dquote] @ '',x'') =
          Inr [blank_row\<lparr>fecha := Str (trimStart a @ [dquote, dquote] @ trimEnd b),
                         loteria := Str ''x''\<rparr>])"
proof (intro conjI impI)
  show "cellRows t = map (\<lambda>l. map cleanCell (splitCells l)) (splitLines (trim t))"
    by (simp add: cellRows_def)
  show "parseCSV t = Inr (map (mkRow (map toLowerCase (hd (cellRows t)))) (tl (cellRows t)))"
    by (rule parseCSV_Inr)
  show "v = (if v \<noteq> [] \<and> hd v = dquote then [dquote] else []) @ stripQuotes v @
       (if 2 \<le> length v \<and> last v = dquote then [dquote] else [])"
    by (rule stripQuotes_parts)
  show "\<exists>l r. stripQuotes v = l @ cleanCell v @ r \<and>
          (\<forall>c\<in>set l. isWhiteSpace c) \<and> (\<forall>c\<in>set r. isWhiteSpace c)"
    unfolding cleanCell_def by (rule trim_parts)
  show "\<not> isWhiteSpace (hd (cleanCell v))" if "cleanCell v \<noteq> []"
    using that trim_ends [of "stripQuotes v"] by (simp add: cleanCell_def)
  show "\<not> isWhiteSpace (last (cleanCell v))" if "cleanCell v \<noteq> []"
    using that trim_ends [of "stripQuotes v"] by (simp add: cleanCell_def)
  show "cleanCell (dquote # a @ [dquote, dquote] @ b @ [dquote]) =
          trimStart a @ [dquote, dquote] @ trimEnd b"
    by (rule cleanCell_quoted)
  assume "newline \<notin> set a \<and> dquote \<notin> set a \<and> newline \<notin> set b \<and> dquote \<notin> set b"
  then have "newline \<notin> set a \<and> dquote \<notin> set a" "newline \<notin> set b \<and> dquote \<notin> set b"
    by simp_all
  then show "parseCSV (''fecha,loteria'' @ [newline] @
                  dquote # a @ [dquote, dquote] @ b @ [dquote] @ '',x'') =
          Inr [blank_row\<lparr>fecha := Str (trimStart a @ [dquote, dquote] @ trimEnd b),
                         loteria := Str ''x''\<rparr>]"
    by (rule parseCSV_quoted_cell)
qed

theorem cleanCell_strip_then_trim_witness:
  "parseCSV ''fecha,loteria\<newline>\" a,\"\"b \",x'' =
     Inr [blank_row\<lparr>fecha := Str ''a,\"\"b'', loteria := Str ''x''\<rparr>]
   \<and> cellRows ''fecha,loteria\<newline>\" a,\"\"b \",x'' = [[''fecha'', ''loteria''], [''a,\"\"b'', ''x'']]
   \<and> cleanCell ''\" a,\"\"b \"'' = ''a,\"\"b''
   \<and> cleanCell ''\" a,\"\"b \"'' \<noteq> []
   \<and> \<not> isWhiteSpace (hd (cleanCell ''\" a,\"\"b \"''))
   \<and> \<not> isWhiteSpace (last (cleanCell ''\" a,\"\"b \"''))
   \<and> cleanCell '' \"a\" '' = ''\"a\"'' \<and> cleanCell ''\"\"a\"\"'' = ''\"a\"''"
proof -
  let ?a = "'' a,''"
  let ?b = "''b ''"
  let ?v = "dquote # ?a @ [dquote, dquote] @ ?b @ [dquote]"
  let ?t = "''fecha,loteria'' @ [newline] @ dquote # ?a @ [dquote, dquote] @ ?b @ [dquote] @ '',x''"
  have v: "''\" a,\"\"b \"'' = ?v"
    by (simp add: dquote_def)
  have t: "''fecha,loteria\<newline>\" a,\"\"b \",x'' = ?t"
    by (simp add: dquote_def newline_def)
  note rule = cleanCell_strip_then_trim [where t = ?t and v = ?v and a = ?a and b = ?b]
  have free: "newline \<notin> set ?a \<and> dquote \<notin> set ?a \<and> newline \<notin> set ?b \<and> dquote \<notin> set ?b"
    by (simp add: newline_def dquote_def)
  have ab: "trimStart ?a = ''a,''" "trimEnd ?b = ''b''"
    by code_simp+
  from rule free have "parseCSV ?t =
      Inr [blank_row\<lparr>fecha := Str (trimStart ?a @ [dquote, dquote] @ trimEnd ?b),
                     loteria := Str ''x''\<rparr>]"
    by blast
  then have p: "parseCSV ?t = Inr [blank_row\<lparr>fecha := Str ''a,\"\"b'', loteria := Str ''x''\<rparr>]"
    unfolding ab by (simp add: dquote_def)
  from rule have "cleanCell ?v = trimStart ?a @ [dquote, dquote] @ trimEnd ?b"
    by blast
  then have c: "cleanCell ?v = ''a,\"\"b''"
    unfolding ab by (simp add: dquote_def)
  then have "cleanCell ?v \<noteq> []"
    by simp
  with rule have e: "\<not> isWhiteSpace (hd (cleanCell ?v)) \<and> \<not> isWhiteSpace (last (cleanCell ?v))"
    by blast
  have cr: "cellRows ''fecha,loteria\<newline>\" a,\"\"b \",x'' =
      [[''fecha'', ''loteria''], [''a,\"\"b'', ''x'']]"
    by code_simp
  have o: "cleanCell '' \"a\" '' = ''\"a\"''" "cleanCell ''\"\"a\"\"'' = ''\"a\"''"
    by code_simp+
  from p c e o cr show ?thesis
    unfolding v t by simp
qed

lemma parseCSV_scenario: "parseCSV scenario_feed = Inr [scenario_animalitos, scenario_loteria]"
  by code_simp

section \<open>Categories\<close>


lemma mkRow_categoria_truthy: "truthy (categoria (mkRow hs r))"
  by (simp add: mkRow_def Let_def or_else_def)

lemma parseCSV_categoria_truthy:
  assumes "parseCSV t = Inr raw"
  shows "\<forall>r\<in>set raw. truthy (categoria r)"
  using assms by (auto simp: parseCSV_Inr mkRow_categoria_truthy)



section \<open>The options of the lottery select\<close>

lemma set_set_add_all: "set (set_add_all seen xs) = set seen \<union> set xs"
  by (induction xs arbitrary: seen) auto

lemma distinct_set_add_all: "distinct seen \<Longrightarrow> distinct (set_add_all seen xs)"
  by (induction xs arbitrary: seen) auto

lemma set_uniq: "set (uniq arr) = {v \<in> set arr. truthy v}"
  by (auto simp: uniq_def set_set_add_all)

lemma distinct_uniq: "distinct (uniq arr)"
  by (simp add: uniq_def distinct_set_add_all)

lemma set_strings_of: "set (strings_of vs) = {s. Str s \<in> set vs}"
  by (induction vs rule: strings_of.induct) auto

lemma distinct_strings_of: "distinct vs \<Longrightarrow> distinct (strings_of vs)"
  by (induction vs rule: strings_of.induct) (auto simp: set_strings_of)

lemma set_insert_cmp: "set (insert_cmp cmp x ys) = insert x (set ys)"
  by (induction ys) auto

lemma distinct_insert_cmp: "x \<notin> set ys \<Longrightarrow> distinct ys \<Longrightarrow> distinct (insert_cmp cmp x ys)"
  by (induction ys) (auto simp: set_insert_cmp)

lemma sorted_insert_cmp:
  assumes tot: "\<forall>a b. cmp a b \<le> 0 \<or> cmp b a \<le> 0"
    and trans: "\<forall>a b c. cmp a b \<le> 0 \<and> cmp b c \<le> 0 \<longrightarrow> cmp a c \<le> 0"
    and s: "sorted_wrt (\<lambda>a b. cmp a b \<le> 0) ys"
  shows "sorted_wrt (\<lambda>a b. cmp a b \<le> 0) (insert_cmp cmp x ys)"
  using s
proof (induction ys)
  case Nil
  then show ?case by simp
next
  case (Cons y ys)
  show ?case
  proof (cases "cmp x y \<le> 0")
    case True
    have "cmp x z \<le> 0" if "z \<in> set ys" for z
    proof -
      from Cons.prems that have "cmp y z \<le> 0" by simp
      with True trans show ?thesis by blast
    qed
    with True Cons.prems show ?thesis by simp
  next
    case False
    with tot have "cmp y x \<le> 0" by blast
    with False Cons show ?thesis
      by (simp add: set_insert_cmp)
  qed
qed

lemma set_sort_cmp: "set (sort_cmp cmp xs) = set xs"
  by (induction xs) (simp_all add: sort_cmp_def set_insert_cmp)

lemma distinct_sort_cmp: "distinct xs \<Longrightarrow> distinct (sort_cmp cmp xs)"
proof (induction xs)
  case Nil
  then show ?case by (simp add: sort_cmp_def)
next
  case (Cons x xs)
  then have "x \<notin> set (sort_cmp cmp xs)" "distinct (sort_cmp cmp xs)"
    by (simp_all add: set_sort_cmp)
  then have "distinct (insert_cmp cmp x (sort_cmp cmp xs))"
    by (rule distinct_insert_cmp)
  then show ?case by (simp add: sort_cmp_def)
qed

lemma sorted_sort_cmp:
  assumes "\<forall>a b. cmp a b \<le> 0 \<or> cmp b a \<le> 0"
    and "\<forall>a b c. cmp a b \<le> 0 \<and> cmp b c \<le> 0 \<longrightarrow> cmp a c \<le> 0"
  shows "sorted_wrt (\<lambda>a b. cmp a b \<le> 0) (sort_cmp cmp xs)"
proof (induction xs)
  case Nil
  then show ?case by (simp add: sort_cmp_def)
next
  case (Cons x xs)
  from sorted_insert_cmp [OF assms Cons.IH] show ?case
    by (simp add: sort_cmp_def)
qed

lemma compareCodeUnits_total: "compareCodeUnits a b \<le> 0 \<or> compareCodeUnits b a \<le> 0"
  by (induction a b rule: compareCodeUnits.induct) auto

lemma compareCodeUnits_trans:
  "compareCodeUnits a b \<le> 0 \<Longrightarrow> compareCodeUnits b c \<le> 0 \<Longrightarrow> compareCodeUnits a c \<le> 0"
proof (induction a b arbitrary: c rule: compareCodeUnits.induct)
  case 1
  then show ?case by simp
next
  case (2 y ys)
  then show ?case by (cases c) simp_all
next
  case (3 x xs)
  then show ?case by simp
next
  case (4 x xs y ys)
  show ?case
  proof (cases c)
    case Nil
    with 4 show ?thesis by simp
  next
    case (Cons z zs)
    with "4.prems" "4.IH" [of zs] show ?thesis
      by (auto split: if_splits)
  qed
qed

text \<open>
  Claim C7. For a comparator that is total and transitive, as a collation is, the options
  derived from a list of records are exactly the non-empty strings among their
  \<^verbatim>\<open>loteria\<close> values, each once, in ascending order of the comparator; from no
  records there are no options. \<^verbatim>\<open>populateLotterySelect\<close> stores this list.
\<close>

theorem facet_options:
  assumes "\<forall>a b. cmp a b \<le> 0 \<or> cmp b a \<le> 0"
    and "\<forall>a b c. cmp a b \<le> 0 \<and> cmp b c \<le> 0 \<longrightarrow> cmp a c \<le> 0"
  shows "set (lots cmp rows) = {s. s \<noteq> [] \<and> Str s \<in> loteria ` set rows}
     \<and> distinct (lots cmp rows)
     \<and> sorted_wrt (\<lambda>a b. cmp a b \<le> 0) (lots cmp rows)
     \<and> lots cmp [] = []
     \<and> lotSel_options (populateLotterySelect cmp rows s) = lots cmp rows"
proof (intro conjI)
  show "set (lots cmp rows) = {s. s \<noteq> [] \<and> Str s \<in> loteria ` set rows}"
    by (auto simp: lots_def set_sort_cmp set_strings_of set_uniq)
  show "distinct (lots cmp rows)"
    by (simp add: lots_def distinct_sort_cmp distinct_strings_of distinct_uniq)
  show "sorted_wrt (\<lambda>a b. cmp a b \<le> 0) (lots cmp rows)"
    unfolding lots_def by (rule sorted_sort_cmp [OF assms])
  show "lots cmp [] = []"
    by (simp add: lots_def uniq_def sort_cmp_def)
  show "lotSel_options (populateLotterySelect cmp rows s) = lots cmp rows"
    by (simp add: populateLotterySelect_def)
qed

theorem facet_options_witness:
  "lots compareCodeUnits
     [scenario_loteria\<lparr>loteria := Str ''Zulia''\<rparr>, scenario_loteria\<lparr>loteria := Str ''Caracas''\<rparr>,
      scenario_loteria\<lparr>loteria := Str []\<rparr>, scenario_loteria\<lparr>loteria := Str ''Zulia''\<rparr>] =
     [''Caracas'', ''Zulia'']
   \<and> sorted_wrt (\<lambda>a b. compareCodeUnits a b \<le> 0) [''Caracas'', ''Zulia'']
   \<and> distinct [''Caracas'', ''Zulia'']"
proof -
  let ?rows = "[scenario_loteria\<lparr>loteria := Str ''Zulia''\<rparr>,
      scenario_loteria\<lparr>loteria := Str ''Caracas''\<rparr>,
      scenario_loteria\<lparr>loteria := Str []\<rparr>, scenario_loteria\<lparr>loteria := Str ''Zulia''\<rparr>]"
  have e: "lots compareCodeUnits ?rows = [''Caracas'', ''Zulia'']"
    by code_simp
  have tot: "\<forall>a b. compareCodeUnits a b \<le> 0 \<or> compareCodeUnits b a \<le> 0"
    using compareCodeUnits_total by blast
  have trans: "\<forall>a b c. compareCodeUnits a b \<le> 0 \<and> compareCodeUnits b c \<le> 0 \<longrightarrow>
      compareCodeUnits a c \<le> 0"
    using compareCodeUnits_trans by blast
  from facet_options [OF tot trans, of ?rows]
  have "distinct (lots compareCodeUnits ?rows)"
    and "sorted_wrt (\<lambda>a b. compareCodeUnits a b \<le> 0) (lots compareCodeUnits ?rows)"
    by blast+
  with e show ?thesis
    by simp
qed

section \<open>Filters\<close>

lemma join_Object_values:
  "join sep (Object_values r) =
     toStr (categoria r) @ sep @ toStr (fecha r) @ sep @ toStr (loteria r) @ sep @
     toStr (horario r) @ sep @ toStr (triple r) @ sep @ toStr (terminal_a_b r) @ sep @
     toStr (terminal_c r) @ sep @ toStr (numero r) @ sep @ toStr (signo r) @ sep @
     toStr (cacho r) @ sep @ toStr (animal r)"
  by (simp add: Object_values_def)

lemma FILTERED_render: "FILTERED (render s) = FILTERED s"
  by (simp add: render_def Let_def)

lemma FILTERED_applyFilters:
  "FILTERED (applyFilters s) =
     filter (passes (lotSel_value s) (toLowerCase (q_value s))) (rowsForCurrentCategory s)"
  by (simp add: applyFilters_def Let_def FILTERED_render rowsForCurrentCategory_def)

text \<open>
  Claim C2, as amended. For a non-empty search text \<open>q\<close> and no lottery selected, a
  record passes exactly when \<open>q\<close> occurs in the lower-cased values of all its fields,
  \<^verbatim>\<open>categoria\<close> first, joined by single spaces.
\<close>

theorem free_text_filter:
  assumes "q \<noteq> []"
  shows "(passes [] q r \<longleftrightarrow>
            sublist q (toLowerCase
              (toStr (categoria r) @ '' '' @ toStr (fecha r) @ '' '' @ toStr (loteria r) @ '' '' @
               toStr (horario r) @ '' '' @ toStr (triple r) @ '' '' @ toStr (terminal_a_b r) @ '' '' @
               toStr (terminal_c r) @ '' '' @ toStr (numero r) @ '' '' @ toStr (signo r) @ '' '' @
               toStr (cacho r) @ '' '' @ toStr (animal r))))
       \<and> (lotSel_value s = [] \<and> toLowerCase (q_value s) = q \<longrightarrow>
            FILTERED (applyFilters s) = filter (passes [] q) (rowsForCurrentCategory s))"
proof
  show "passes [] q r \<longleftrightarrow>
            sublist q (toLowerCase
              (toStr (categoria r) @ '' '' @ toStr (fecha r) @ '' '' @ toStr (loteria r) @ '' '' @
               toStr (horario r) @ '' '' @ toStr (triple r) @ '' '' @ toStr (terminal_a_b r) @ '' '' @
               toStr (terminal_c r) @ '' '' @ toStr (numero r) @ '' '' @ toStr (signo r) @ '' '' @
               toStr (cacho r) @ '' '' @ toStr (animal r)))"
    using assms
    by (simp only: passes_def includes_str_sublist join_Object_values) simp
  show "lotSel_value s = [] \<and> toLowerCase (q_value s) = q \<longrightarrow>
            FILTERED (applyFilters s) = filter (passes [] q) (rowsForCurrentCategory s)"
    by (auto simp: FILTERED_applyFilters)
qed

theorem free_text_filter_witness:
  "''cerdo'' \<noteq> [] \<and> passes [] ''cerdo'' scenario_animalitos
   \<and> \<not> passes [] ''gato'' scenario_animalitos
   \<and> FILTERED (applyFilters (initial\<lparr>RAW := [scenario_animalitos, scenario_loteria],
         CURRENT_CAT := ''animalitos'', q_value := ''Cerdo''\<rparr>)) = [scenario_animalitos]"
proof -
  let ?s = "initial\<lparr>RAW := [scenario_animalitos, scenario_loteria],
         CURRENT_CAT := ''animalitos'', q_value := ''Cerdo''\<rparr>"
  let ?hay = "\<lambda>r. toLowerCase
              (toStr (categoria r) @ '' '' @ toStr (fecha r) @ '' '' @ toStr (loteria r) @ '' '' @
               toStr (horario r) @ '' '' @ toStr (triple r) @ '' '' @ toStr (terminal_a_b r) @ '' '' @
               toStr (terminal_c r) @ '' '' @ toStr (numero r) @ '' '' @ toStr (signo r) @ '' '' @
               toStr (cacho r) @ '' '' @ toStr (animal r))"
  have h: "?hay scenario_animalitos = ''animalitos  triple     20   cerdo''"
    by code_simp
  have "''animalitos  triple     20   cerdo'' = ''animalitos  triple     20   '' @ ''cerdo'' @ []"
    by simp
  then have y: "sublist ''cerdo'' (?hay scenario_animalitos)"
    unfolding h sublist_def by blast
  have "\<not> includes_str ''animalitos  triple     20   cerdo'' ''gato''"
    by code_simp
  then have n: "\<not> sublist ''gato'' (?hay scenario_animalitos)"
    unfolding h includes_str_sublist .
  have q: "''cerdo'' \<noteq> []" "''gato'' \<noteq> []"
    by simp_all
  have c: "lotSel_value ?s = [] \<and> toLowerCase (q_value ?s) = ''cerdo''"
    by (simp add: initial_def) code_simp
  have b: "rowsForCurrentCategory ?s = [scenario_animalitos]"
    by (simp add: rowsForCurrentCategory_def rowsForCategory_def scenario_animalitos_def
        scenario_loteria_def or_else_def)
  from free_text_filter [OF q(1), of scenario_animalitos ?s] y c
  have p: "passes [] ''cerdo'' scenario_animalitos"
    and f: "FILTERED (applyFilters ?s) = filter (passes [] ''cerdo'') (rowsForCurrentCategory ?s)"
    by blast+
  from free_text_filter [OF q(2), of scenario_animalitos] n
  have g: "\<not> passes [] ''gato'' scenario_animalitos"
    by blast
  from f b p have "FILTERED (applyFilters ?s) = [scenario_animalitos]"
    by simp
  with p g show ?thesis
    by simp
qed

theorem free_text_filter_counterexample:
  "passes [] ''loteria'' blank_row
   \<and> \<not> sublist ''loteria''
         (toLowerCase (join '' '' [fecha blank_row, loteria blank_row, horario blank_row,
            triple blank_row, terminal_a_b blank_row, terminal_c blank_row, numero blank_row,
            signo blank_row, cacho blank_row, animal blank_row]))"
proof
  show "passes [] ''loteria'' blank_row"
    by code_simp
  have "\<not> includes_str
         (toLowerCase (join '' '' [fecha blank_row, loteria blank_row, horario blank_row,
            triple blank_row, terminal_a_b blank_row, terminal_c blank_row, numero blank_row,
            signo blank_row, cacho blank_row, animal blank_row])) ''loteria''"
    by code_simp
  then show "\<not> sublist ''loteria''
         (toLowerCase (join '' '' [fecha blank_row, loteria blank_row, horario blank_row,
            triple blank_row, terminal_a_b blank_row, terminal_c blank_row, numero blank_row,
            signo blank_row, cacho blank_row, animal blank_row]))"
    unfolding includes_str_sublist .
qed

lemma passes_split: "passes lot q r \<longleftrightarrow> passes lot [] r \<and> passes [] q r"
  by (simp add: passes_def)

lemma toLowerCase_Nil: "toLowerCase [] = []"
  by (simp add: toLowerCase_def)

text \<open>
  Claim C10. Filtering with a lottery and a search text at once gives the same list as
  filtering by the lottery alone and then by the text alone, in either order; the list
  that \<^verbatim>\<open>applyFilters\<close> stores with both controls set is the text filter of the list
  it stores with the search box empty.
\<close>

theorem filters_compose:
  "filter (passes lot q) s = filter (passes [] q) (filter (passes lot []) s)
   \<and> filter (passes lot q) s = filter (passes lot []) (filter (passes [] q) s)
   \<and> FILTERED (applyFilters (st\<lparr>lotSel_value := lot, q_value := q0\<rparr>)) =
       filter (passes [] (toLowerCase q0))
         (FILTERED (applyFilters (st\<lparr>lotSel_value := lot, q_value := []\<rparr>)))"
proof (intro conjI)
  have a: "passes lot q = (\<lambda>r. passes lot [] r \<and> passes [] q r)"
    using passes_split [of lot q] by blast
  show "filter (passes lot q) s = filter (passes [] q) (filter (passes lot []) s)"
    by (subst a) simp
  have b: "passes lot q = (\<lambda>r. passes [] q r \<and> passes lot [] r)"
    using passes_split [of lot q] by blast
  show "filter (passes lot q) s = filter (passes lot []) (filter (passes [] q) s)"
    by (subst b) simp
  have c: "passes lot (toLowerCase q0) = (\<lambda>r. passes lot [] r \<and> passes [] (toLowerCase q0) r)"
    using passes_split [of lot "toLowerCase q0"] by blast
  show "FILTERED (applyFilters (st\<lparr>lotSel_value := lot, q_value := q0\<rparr>)) =
       filter (passes [] (toLowerCase q0))
         (FILTERED (applyFilters (st\<lparr>lotSel_value := lot, q_value := []\<rparr>)))"
    by (simp add: FILTERED_applyFilters rowsForCurrentCategory_def toLowerCase_Nil) (subst c, simp)
qed

section \<open>Switching the category and loading\<close>

lemma setCategory_controls:
  "lotSel_value (setCategory cmp cat s) = [] \<and> q_value (setCategory cmp cat s) = [] \<and>
   CURRENT_CAT (setCategory cmp cat s) = cat \<and> RAW (setCategory cmp cat s) = RAW s"
  by (simp add: setCategory_def applyFilters_def populateLotterySelect_def render_def Let_def)

lemma passes_no_filter: "passes [] [] r"
  by (simp add: passes_def)

lemma FILTERED_setCategory: "FILTERED (setCategory cmp cat s) = rowsForCategory cat (RAW s)"
  by (simp add: setCategory_def FILTERED_applyFilters populateLotterySelect_def
      rowsForCurrentCategory_def Let_def toLowerCase_Nil passes_no_filter)

text \<open>
  Claim C8. After \<^verbatim>\<open>setCategory\<close> the lottery select and the search box are empty,
  whatever the category: also for the category that is already current, and for the same
  category a second time. The list shown is then the whole category.
\<close>

theorem setCategory_resets:
  "lotSel_value (setCategory cmp cat s) = [] \<and> q_value (setCategory cmp cat s) = []
   \<and> lotSel_value (setCategory cmp (CURRENT_CAT s) s) = []
   \<and> q_value (setCategory cmp (CURRENT_CAT s) s) = []
   \<and> lotSel_value (setCategory cmp cat (setCategory cmp cat s)) = []
   \<and> q_value (setCategory cmp cat (setCategory cmp cat s)) = []
   \<and> FILTERED (setCategory cmp cat s) = rowsForCategory cat (RAW s)"
  by (simp add: setCategory_controls FILTERED_setCategory)

lemma onLoadError_state:
  "RAW (onLoadError msg s) = [] \<and> FILTERED (onLoadError msg s) = [] \<and>
   lotSel_options (onLoadError msg s) = lotSel_options s \<and>
   lotSel_value (onLoadError msg s) = lotSel_value s \<and> q_value (onLoadError msg s) = q_value s"
  by (simp add: onLoadError_def showError_def render_def Let_def)

lemma loadData_failure:
  assumes "outcome = NetworkFault msg \<or> outcome = Response False body"
  shows "RAW (loadData cmp outcome s) = [] \<and> FILTERED (loadData cmp outcome s) = [] \<and>
     lotSel_options (loadData cmp outcome s) = lotSel_options s"
  using assms
  by (auto simp: loadData_def Let_def onLoadError_state hideError_def)

lemma RAW_loadData_truthy:
  "\<forall>r\<in>set (RAW (loadData cmp outcome s)). truthy (categoria r)"
proof (cases outcome)
  case (NetworkFault msg)
  then show ?thesis
    by (simp add: loadData_def Let_def onLoadError_state)
next
  case (Response ok body)
  show ?thesis
  proof (cases ok)
    case False
    with Response show ?thesis
      by (simp add: loadData_def Let_def onLoadError_state)
  next
    case True
    with Response show ?thesis
      by (simp add: loadData_def Let_def parseCSV_Inr setCategory_controls mkRow_categoria_truthy)
  qed
qed

lemma lots_scenario: "lots cmp [scenario_loteria] = [''Triple'']"
  by (simp add: lots_def uniq_def scenario_loteria_def sort_cmp_def)

lemma rowsForCategory_scenario:
  "rowsForCategory ''loteria'' [scenario_animalitos, scenario_loteria] = [scenario_loteria]"
  by (simp add: rowsForCategory_def scenario_animalitos_def scenario_loteria_def or_else_def)

lemma loadData_scenario:
  "RAW (loadData cmp (Response True scenario_feed) initial) =
     [scenario_animalitos, scenario_loteria] \<and>
   FILTERED (loadData cmp (Response True scenario_feed) initial) = [scenario_loteria] \<and>
   lotSel_options (loadData cmp (Response True scenario_feed) initial) = [''Triple'']"
proof -
  have c: "CURRENT_CAT ((hideError initial)\<lparr>status_text := Loading, refresh_disabled := True\<rparr>) =
      ''loteria''"
    by (simp add: hideError_def initial_def)
  show ?thesis
    by (simp add: loadData_def Let_def parseCSV_scenario setCategory_controls FILTERED_setCategory
        c rowsForCategory_scenario)
      (simp add: setCategory_def applyFilters_def populateLotterySelect_def render_def Let_def
        rowsForCurrentCategory_def rowsForCategory_scenario lots_scenario)
qed

text \<open>
  Claim C3, at a failing input. The scenario feed is loaded, then a load fails. The
  \<^verbatim>\<open>catch\<close> block empties \<^verbatim>\<open>RAW\<close> and \<^verbatim>\<open>FILTERED\<close>; it does not call
  \<^verbatim>\<open>populateLotterySelect\<close>, so the select keeps the option of the feed that is gone.
\<close>

theorem failed_load_keeps_options:
  "RAW (loadData compareCodeUnits (NetworkFault ''Failed to fetch'')
          (loadData compareCodeUnits (Response True scenario_feed) initial)) = []
   \<and> FILTERED (loadData compareCodeUnits (NetworkFault ''Failed to fetch'')
          (loadData compareCodeUnits (Response True scenario_feed) initial)) = []
   \<and> lotSel_options (loadData compareCodeUnits (NetworkFault ''Failed to fetch'')
          (loadData compareCodeUnits (Response True scenario_feed) initial)) = [''Triple'']
   \<and> lotSel_options (loadData compareCodeUnits (Response False [])
          (loadData compareCodeUnits (Response True scenario_feed) initial)) = [''Triple'']"
  using loadData_failure [of "NetworkFault ''Failed to fetch''" "''Failed to fetch''" "[]"
      compareCodeUnits "loadData compareCodeUnits (Response True scenario_feed) initial"]
    loadData_failure [of "Response False []" "[]" "[]"
      compareCodeUnits "loadData compareCodeUnits (Response True scenario_feed) initial"]
    loadData_scenario [of compareCodeUnits]
  by simp

end
